theory Spec2Isabelle
  imports Main "HOL-Library.Multiset"
begin

section \<open>Values, keys and errors\<close>

text \<open>
  The data handed to \<open>traverseIn\<close> is an arbitrary JavaScript value. The model keeps the
  JSON shapes and one opaque constructor for functions (what a prototype member usually
  is). Numbers are integers here; no statement below depends on floating point. A
  string is a list of characters. An object is the list of its own enumerable entries
  in the order \<open>Object.entries\<close> reports them.
\<close>

datatype jvalue =
    JNull
  | JBool bool
  | JNum int
  | JStr string
  | JArray "jvalue list"
  | JObject "(string \<times> jvalue) list"
  | JFunction string

text \<open>\<open>key: string | number\<close> of the source; \<open>null\<close> is \<open>None\<close> of \<open>jkey option\<close>.\<close>

datatype jkey = KStr string | KNum nat

text \<open>
  Every \<open>throw new Error(msg)\<close> of the source is \<open>Error msg\<close> with the message of the
  source; \<open>TypeError\<close> stands for the errors the runtime itself raises. The error of
  the mutators, which the specification calls \<open>UnsupportedOperation\<close>, has a name.
\<close>

datatype error = Error string | TypeError string

definition UnsupportedOperation :: error where
  "UnsupportedOperation = Error ''Cannot rename array elements or root node''"

section \<open>Small JavaScript primitives\<close>

definition startsWith :: "string \<Rightarrow> string \<Rightarrow> bool" where
  "startsWith s p = (take (length p) s = p)"

definition endsWith :: "string \<Rightarrow> string \<Rightarrow> bool" where
  "endsWith s p = (length p \<le> length s \<and> drop (length s - length p) s = p)"

definition digitChar :: "nat \<Rightarrow> char" where
  "digitChar d = ''0123456789'' ! d"

text \<open>\<open>String(i)\<close> for an array index: the decimal numeral without leading zeros.\<close>

function showNat :: "nat \<Rightarrow> string" where
  "showNat n = (if n < 10 then [digitChar n] else showNat (n div 10) @ [digitChar (n mod 10)])"
  by pat_completeness auto
termination
  by (relation "measure id") auto

declare showNat.simps [simp del]

text \<open>The property name a key denotes when used in \<open>parent[key]\<close>.\<close>

fun propertyName :: "jkey \<Rightarrow> string" where
  "propertyName (KStr s) = s"
| "propertyName (KNum i) = showNat i"

fun isArray :: "jvalue \<Rightarrow> bool" where
  "isArray (JArray xs) = True"
| "isArray _ = False"

text \<open>\<open>typeof v === 'object'\<close>: true of \<open>null\<close>, arrays and objects.\<close>

fun typeofObject :: "jvalue \<Rightarrow> bool" where
  "typeofObject JNull = True"
| "typeofObject (JArray xs) = True"
| "typeofObject (JObject es) = True"
| "typeofObject _ = False"

section \<open>Own and inherited properties\<close>

definition isDigit :: "char \<Rightarrow> bool" where
  "isDigit c = (c \<in> set ''0123456789'')"

definition digitValue :: "char \<Rightarrow> nat" where
  "digitValue c = of_char c - 48"

text \<open>
  \<open>parseInt\<close> on a string of decimal digits. Up to 15 digits the JavaScript number is
  exactly this integer.
\<close>

definition parseInt :: "string \<Rightarrow> nat" where
  "parseInt ds = foldl (\<lambda>acc c. 10 * acc + digitValue c) 0 ds"

text \<open>
  A property name is an array index when it is the canonical decimal numeral of a
  number: \<open>'1'\<close> is, \<open>'01'\<close> is not.
\<close>

definition arrayIndex :: "string \<Rightarrow> nat option" where
  "arrayIndex s =
     (if s \<noteq> [] \<and> list_all isDigit s \<and> showNat (parseInt s) = s then Some (parseInt s)
      else None)"

fun ownProperty :: "jvalue \<Rightarrow> string \<Rightarrow> jvalue option" where
  "ownProperty (JObject es) k = map_of es k"
| "ownProperty (JArray xs) k =
     (case arrayIndex k of
        Some i \<Rightarrow> if i < length xs then Some (xs ! i) else None
      | None \<Rightarrow> if k = ''length'' then Some (JNum (int (length xs))) else None)"
| "ownProperty v k = None"

text \<open>
  \<open>name in node\<close> also finds the members \<open>node\<close> inherits from its prototype
  (\<open>toString\<close>, \<open>push\<close>, ...). What a container inherits belongs to the runtime, not to this
  repository, and is a parameter of the model: \<open>inherited v name\<close> is the value of the
  inherited member \<open>name\<close> of \<open>v\<close>, if there is one. \<open>lookupProperty\<close> is \<open>None\<close> exactly
  when \<open>name in node\<close> is false, and otherwise holds \<open>node[name]\<close>.
\<close>

type_synonym prototype = "jvalue \<Rightarrow> string \<Rightarrow> jvalue option"

definition lookupProperty :: "prototype \<Rightarrow> jvalue \<Rightarrow> string \<Rightarrow> jvalue option" where
  "lookupProperty inherited v k =
     (case ownProperty v k of Some x \<Rightarrow> Some x | None \<Rightarrow> inherited v k)"

text \<open>Containers created without a prototype inherit nothing.\<close>

definition nullPrototype :: prototype where
  "nullPrototype v k = None"

text \<open>\<open>Object.entries\<close>; it throws on \<open>null\<close>.\<close>

fun objectEntries :: "jvalue \<Rightarrow> error + (string \<times> jvalue) list" where
  "objectEntries JNull = Inl (TypeError ''Cannot convert undefined or null to object'')"
| "objectEntries (JArray xs) = Inr (map (\<lambda>(i, x). (showNat i, x)) (enumerate 0 xs))"
| "objectEntries (JObject es) = Inr es"
| "objectEntries (JStr s) = Inr (map (\<lambda>(i, c). (showNat i, JStr [c])) (enumerate 0 s))"
| "objectEntries v = Inr []"

section \<open>The condition evaluator\<close>

text \<open>
  \<open>action\<close> has the type the interface declares: a total predicate of \<open>key\<close>, \<open>value\<close>,
  \<open>target\<close> and \<open>conditionValue\<close>. The target is any value: a key is passed as the string
  or the number it is.
\<close>

record IJsonPatternCondition =
  name :: string
  action :: "jkey \<Rightarrow> jvalue \<Rightarrow> jvalue \<Rightarrow> jvalue \<Rightarrow> bool"

fun keyValue :: "jkey \<Rightarrow> jvalue" where
  "keyValue (KStr s) = JStr s"
| "keyValue (KNum i) = JNum (int i)"

text \<open>\<open>s.split(sep)\<close> for a one-character separator: never empty, \<open>''.split('.')\<close> is \<open>['']\<close>.\<close>

fun splitOn :: "char \<Rightarrow> string \<Rightarrow> string list" where
  "splitOn sep [] = [[]]"
| "splitOn sep (c # cs) =
     (if c = sep then [] # splitOn sep cs
      else (case splitOn sep cs of p # ps \<Rightarrow> (c # p) # ps | [] \<Rightarrow> [[c]]))"

definition evaluateCondition ::
  "string \<Rightarrow> jvalue \<Rightarrow> jkey \<Rightarrow> jvalue \<Rightarrow> IJsonPatternCondition list \<Rightarrow> error + bool" where
  "evaluateCondition cond condValue k v injectedConditions =
     (let parts = splitOn CHR ''.'' cond;
          prefix = (case parts of p # ps \<Rightarrow> p | [] \<Rightarrow> []);
          conditionName = (case parts of p # n # ps \<Rightarrow> Some n | _ \<Rightarrow> None);
          negate = startsWith prefix ''!'';
          cleanConditionName = (case conditionName of None \<Rightarrow> prefix | Some n \<Rightarrow> n)
      in case find (\<lambda>c. name c = cleanConditionName) injectedConditions of
           None \<Rightarrow> Inl (Error (''Condition not found: '' @ cleanConditionName))
         | Some condition \<Rightarrow>
             (let target = (if endsWith prefix ''value'' then v else keyValue k);
                  result = action condition k v target condValue
              in Inr (if negate then \<not> result else result)))"

text \<open>
  Entries of \<open>defaultConditions\<close>, each with the action of the source. \<open>===\<close> compares
  primitives by type and value and objects by reference; an object of the data and a
  value parsed from the pattern are never the same reference.
\<close>

fun strictEquals :: "jvalue \<Rightarrow> jvalue \<Rightarrow> bool" where
  "strictEquals JNull JNull = True"
| "strictEquals (JBool a) (JBool b) = (a = b)"
| "strictEquals (JNum a) (JNum b) = (a = b)"
| "strictEquals (JStr a) (JStr b) = (a = b)"
| "strictEquals a b = False"

fun typeofNumber :: "jvalue \<Rightarrow> bool" where
  "typeofNumber (JNum n) = True"
| "typeofNumber v = False"

fun typeofString :: "jvalue \<Rightarrow> bool" where
  "typeofString (JStr s) = True"
| "typeofString v = False"

definition equalWith :: IJsonPatternCondition where
  "equalWith = \<lparr>name = ''equalWith'',
     action = (\<lambda>k v target conditionValue. strictEquals target conditionValue)\<rparr>"


definition isString :: IJsonPatternCondition where
  "isString = \<lparr>name = ''isString'', action = (\<lambda>k v target conditionValue. typeofString target)\<rparr>"

definition isNumber :: IJsonPatternCondition where
  "isNumber = \<lparr>name = ''isNumber'', action = (\<lambda>k v target conditionValue. typeofNumber target)\<rparr>"

text \<open>
  The numeric comparisons. Each action is \<open>typeof target === 'number' && ...\<close>: on a
  target that is not a number it is false, and the comparison is not evaluated. Between
  two numbers the comparison is their order; \<open>between\<close> reads its bounds at the indices 0
  and 1 of the argument. For an argument of another shape the outcome is that of
  JavaScript's conversions (and \<open>between\<close> raises on \<open>null\<close>): it is left to the parameter
  \<open>coerced\<close>, of which nothing is assumed.
\<close>

fun compareNumber ::
  "(int \<Rightarrow> int \<Rightarrow> bool) \<Rightarrow> (int \<Rightarrow> jvalue \<Rightarrow> bool) \<Rightarrow> jvalue \<Rightarrow> jvalue \<Rightarrow> bool" where
  "compareNumber rel coerced (JNum a) (JNum b) = rel a b"
| "compareNumber rel coerced (JNum a) other = coerced a other"
| "compareNumber rel coerced target other = False"

definition greaterThan :: "(int \<Rightarrow> jvalue \<Rightarrow> bool) \<Rightarrow> IJsonPatternCondition" where
  "greaterThan coerced = \<lparr>name = ''greaterThan'',
     action = (\<lambda>k v target conditionValue.
       typeofNumber target \<and> compareNumber (\<lambda>a b. b < a) coerced target conditionValue)\<rparr>"

definition lessThan :: "(int \<Rightarrow> jvalue \<Rightarrow> bool) \<Rightarrow> IJsonPatternCondition" where
  "lessThan coerced = \<lparr>name = ''lessThan'',
     action = (\<lambda>k v target conditionValue.
       typeofNumber target \<and> compareNumber (\<lambda>a b. a < b) coerced target conditionValue)\<rparr>"

definition between :: "(int \<Rightarrow> jvalue \<Rightarrow> bool) \<Rightarrow> IJsonPatternCondition" where
  "between coerced = \<lparr>name = ''between'',
     action = (\<lambda>k v target conditionValue.
       typeofNumber target \<and>
       (case conditionValue of
          JArray (JNum lo # JNum hi # rest) \<Rightarrow>
            compareNumber (\<lambda>a b. b \<le> a) coerced target (JNum lo) \<and>
            compareNumber (\<lambda>a b. a \<le> b) coerced target (JNum hi)
        | _ \<Rightarrow> (case target of JNum a \<Rightarrow> coerced a conditionValue | _ \<Rightarrow> False)))\<rparr>"

text \<open>
  \<open>Object.entries(conditions).every(...)\<close> and \<open>conditions.some(...)\<close> stop at the first
  pair (group) that decides them, and an error thrown by \<open>evaluateCondition\<close> on the way
  ends the whole call.
\<close>

fun everyCondition ::
  "(string \<times> jvalue) list \<Rightarrow> jkey \<Rightarrow> jvalue \<Rightarrow> IJsonPatternCondition list \<Rightarrow> error + bool" where
  "everyCondition [] k v reg = Inr True"
| "everyCondition ((cond, condValue) # rest) k v reg =
     (case evaluateCondition cond condValue k v reg of
        Inl e \<Rightarrow> Inl e
      | Inr b \<Rightarrow> if b then everyCondition rest k v reg else Inr False)"

definition objectCondSatisfies ::
  "jvalue \<Rightarrow> jkey \<Rightarrow> jvalue \<Rightarrow> IJsonPatternCondition list \<Rightarrow> error + bool" where
  "objectCondSatisfies conditions k v reg =
     (case objectEntries conditions of
        Inl e \<Rightarrow> Inl e
      | Inr conds \<Rightarrow> everyCondition conds k v reg)"

fun someConditionSet ::
  "jvalue list \<Rightarrow> jkey \<Rightarrow> jvalue \<Rightarrow> IJsonPatternCondition list \<Rightarrow> error + bool" where
  "someConditionSet [] k v reg = Inr False"
| "someConditionSet (conditionSet # rest) k v reg =
     (case objectCondSatisfies conditionSet k v reg of
        Inl e \<Rightarrow> Inl e
      | Inr b \<Rightarrow> if b then Inr True else someConditionSet rest k v reg)"

definition arrayCondSatisfies ::
  "jvalue \<Rightarrow> jkey \<Rightarrow> jvalue \<Rightarrow> IJsonPatternCondition list \<Rightarrow> error + bool" where
  "arrayCondSatisfies conditions k v reg =
     (case conditions of
        JArray groups \<Rightarrow> someConditionSet groups k v reg
      | _ \<Rightarrow> Inl (TypeError ''step.conditions.some is not a function''))"

section \<open>The traversal engine\<close>

datatype PatternStep =
    Property string
  | SingleStar
  | DoubleStar "nat option"
  | SingleKey string
  | MultiKey "string list"
  | ObjectCond jvalue
  | ArrayCond jvalue

text \<open>
  \<open>conditions\<close> of the two condition steps is whatever \<open>JSON.parse\<close> returned, hence a
  \<open>jvalue\<close>. \<open>parent\<close> of a node is the parent container, \<open>JNull\<close> at the root.
\<close>

record TraversalNode =
  node :: jvalue
  parent :: jvalue
  key :: "jkey option"
  path :: "jkey list"

record DoubleStarNode = TraversalNode +
  depth :: nat

text \<open>The node pushed for the child under \<open>k\<close> of the frontier member \<open>tn\<close>.\<close>

definition childNode :: "TraversalNode \<Rightarrow> jkey \<Rightarrow> jvalue \<Rightarrow> TraversalNode" where
  "childNode tn k v = \<lparr>node = v, parent = node tn, key = Some k, path = path tn @ [k]\<rparr>"

fun vsize :: "jvalue \<Rightarrow> nat" where
  "vsize (JArray xs) = Suc (sum_list (map vsize xs))"
| "vsize (JObject es) = Suc (sum_list (map (\<lambda>e. vsize (snd e)) es))"
| "vsize v = Suc 0"

text \<open>
  The double-star case: a queue seeded with the frontier member at depth 0. Each
  dequeued node is pushed to \<open>nextNodes\<close>; unless the depth bound is reached, its
  children (of an array or an object) are enqueued one level deeper. The function
  returns the nodes pushed, in order.
\<close>

definition enqueueChildren :: "DoubleStarNode \<Rightarrow> DoubleStarNode list" where
  "enqueueChildren q =
     (case node q of
        JArray xs \<Rightarrow>
          map (\<lambda>(i, item). \<lparr>node = item, parent = node q, key = Some (KNum i),
                 path = path q @ [KNum i], depth = depth q + 1\<rparr>) (enumerate 0 xs)
      | JObject es \<Rightarrow>
          map (\<lambda>(childKey, childValue). \<lparr>node = childValue, parent = node q,
                 key = Some (KStr childKey), path = path q @ [KStr childKey],
                 depth = depth q + 1\<rparr>) es
      | _ \<Rightarrow> [])"

definition depthReached :: "nat option \<Rightarrow> nat \<Rightarrow> bool" where
  "depthReached maxDepth d = (case maxDepth of None \<Rightarrow> False | Some m \<Rightarrow> d \<ge> m)"

definition emitted :: "DoubleStarNode \<Rightarrow> TraversalNode" where
  "emitted q = \<lparr>node = node q, parent = parent q, key = key q, path = path q\<rparr>"

lemma vsize_enqueueChildren:
  "Suc (sum_list (map (\<lambda>c. vsize (node c)) (enqueueChildren q))) = vsize (node q) \<or>
   enqueueChildren q = []"
proof (cases "node q")
  case (JArray xs)
  have "map (\<lambda>c. vsize (node c)) (enqueueChildren q) = map vsize xs"
    by (simp add: enqueueChildren_def JArray map_idI comp_def case_prod_unfold enumerate_eq_zip
        flip: map_map [of vsize snd, unfolded comp_def])
  then show ?thesis by (simp add: JArray)
next
  case (JObject es)
  have "map (\<lambda>c. vsize (node c)) (enqueueChildren q) = map (\<lambda>e. vsize (snd e)) es"
    by (simp add: enqueueChildren_def JObject comp_def case_prod_unfold)
  then show ?thesis by (simp add: JObject)
qed (simp_all add: enqueueChildren_def)

function doubleStarLoop :: "nat option \<Rightarrow> DoubleStarNode list \<Rightarrow> TraversalNode list" where
  "doubleStarLoop maxDepth [] = []"
| "doubleStarLoop maxDepth (q # queue) =
     emitted q #
     (if depthReached maxDepth (depth q) then doubleStarLoop maxDepth queue
      else doubleStarLoop maxDepth (queue @ enqueueChildren q))"
  by pat_completeness auto
termination
proof (relation "measure (\<lambda>(maxDepth, queue). sum_list (map (\<lambda>c. vsize (node c)) queue))")
  show "wf (measure (\<lambda>(maxDepth, queue). sum_list (map (\<lambda>c. vsize (node c)) queue)))"
    by simp
next
  fix maxDepth :: "nat option" and q :: DoubleStarNode and queue :: "DoubleStarNode list"
  have "0 < vsize (node q)" by (cases "node q") simp_all
  then show "((maxDepth, queue), (maxDepth, q # queue))
      \<in> measure (\<lambda>(maxDepth, queue). sum_list (map (\<lambda>c. vsize (node c)) queue))"
    by simp
next
  fix maxDepth :: "nat option" and q :: DoubleStarNode and queue :: "DoubleStarNode list"
  have "0 < vsize (node q)" by (cases "node q") simp_all
  with vsize_enqueueChildren [of q]
  show "((maxDepth, queue @ enqueueChildren q), (maxDepth, q # queue))
      \<in> measure (\<lambda>(maxDepth, queue). sum_list (map (\<lambda>c. vsize (node c)) queue))"
    by auto
qed

declare doubleStarLoop.simps [simp del]

text \<open>
  The condition steps walk \<open>Object.entries(node)\<close> in order and keep the entries that
  satisfy; the first error thrown ends the walk.
\<close>

fun filterEntries ::
  "(jkey \<Rightarrow> jvalue \<Rightarrow> error + bool) \<Rightarrow> (string \<times> jvalue) list \<Rightarrow> error + (string \<times> jvalue) list" where
  "filterEntries satisfies [] = Inr []"
| "filterEntries satisfies ((childKey, childValue) # es) =
     (case satisfies (KStr childKey) childValue of
        Inl e \<Rightarrow> Inl e
      | Inr b \<Rightarrow>
          (case filterEntries satisfies es of
             Inl e \<Rightarrow> Inl e
           | Inr rest \<Rightarrow> Inr (if b then (childKey, childValue) # rest else rest)))"

definition condStep ::
  "(jkey \<Rightarrow> jvalue \<Rightarrow> error + bool) \<Rightarrow> TraversalNode \<Rightarrow> error + TraversalNode list" where
  "condStep satisfies tn =
     (case objectEntries (node tn) of
        Inl e \<Rightarrow> Inl e
      | Inr es \<Rightarrow>
          (case filterEntries satisfies es of
             Inl e \<Rightarrow> Inl e
           | Inr kept \<Rightarrow> Inr (map (\<lambda>(childKey, childValue). childNode tn (KStr childKey) childValue) kept)))"

definition keyStep :: "prototype \<Rightarrow> string \<Rightarrow> TraversalNode \<Rightarrow> TraversalNode list" where
  "keyStep inherited k tn =
     (case lookupProperty inherited (node tn) k of
        Some v \<Rightarrow> [childNode tn (KStr k) v]
      | None \<Rightarrow> [])"

text \<open>
  One step applied to one frontier member: the body of the inner \<open>for\<close> loop. A member
  that is \<open>null\<close> or not of type \<open>object\<close> is skipped before the \<open>switch\<close>.
\<close>

fun applyStep ::
  "prototype \<Rightarrow> IJsonPatternCondition list \<Rightarrow> PatternStep \<Rightarrow> TraversalNode \<Rightarrow> error + TraversalNode list" where
  "applyStep inherited reg step tn =
     (if node tn = JNull \<or> \<not> typeofObject (node tn) then Inr []
      else
        (case step of
           Property nm \<Rightarrow> Inr (keyStep inherited nm tn)
         | SingleStar \<Rightarrow>
             Inr (case node tn of
                    JArray xs \<Rightarrow> map (\<lambda>(i, item). childNode tn (KNum i) item) (enumerate 0 xs)
                  | JObject es \<Rightarrow> map (\<lambda>(k, v). childNode tn (KStr k) v) es
                  | _ \<Rightarrow> [])
         | DoubleStar maxDepth \<Rightarrow>
             Inr (doubleStarLoop maxDepth
                    [\<lparr>node = node tn, parent = parent tn, key = key tn, path = path tn, depth = 0\<rparr>])
         | SingleKey k \<Rightarrow> Inr (keyStep inherited k tn)
         | MultiKey ks \<Rightarrow> Inr (concat (map (\<lambda>k. keyStep inherited k tn) ks))
         | ObjectCond conditions \<Rightarrow>
             condStep (\<lambda>k v. objectCondSatisfies conditions k v reg) tn
         | ArrayCond conditions \<Rightarrow>
             condStep (\<lambda>k v. arrayCondSatisfies conditions k v reg) tn))"

text \<open>\<open>nextNodes\<close> of one step over the whole frontier, and the loop over the steps.\<close>

fun nextNodes ::
  "prototype \<Rightarrow> IJsonPatternCondition list \<Rightarrow> PatternStep \<Rightarrow> TraversalNode list \<Rightarrow> error + TraversalNode list" where
  "nextNodes inherited reg step [] = Inr []"
| "nextNodes inherited reg step (tn # currentNodes) =
     (case applyStep inherited reg step tn of
        Inl e \<Rightarrow> Inl e
      | Inr out \<Rightarrow>
          (case nextNodes inherited reg step currentNodes of
             Inl e \<Rightarrow> Inl e
           | Inr rest \<Rightarrow> Inr (out @ rest)))"

fun runSteps ::
  "prototype \<Rightarrow> IJsonPatternCondition list \<Rightarrow> PatternStep list \<Rightarrow> TraversalNode list \<Rightarrow> error + TraversalNode list" where
  "runSteps inherited reg [] currentNodes = Inr currentNodes"
| "runSteps inherited reg (step # steps) currentNodes =
     (case nextNodes inherited reg step currentNodes of
        Inl e \<Rightarrow> Inl e
      | Inr next \<Rightarrow> runSteps inherited reg steps next)"

definition rootNode :: "jvalue \<Rightarrow> TraversalNode" where
  "rootNode data = \<lparr>node = data, parent = JNull, key = None, path = []\<rparr>"

section \<open>The pattern compiler\<close>

definition dquote :: char where "dquote = CHR 0x22"
definition squote :: char where "squote = CHR 0x27"
definition backslash :: char where "backslash = CHR 0x5C"

text \<open>\<open>trim\<close> removes white space at both ends; patterns are taken to be ASCII.\<close>

definition isSpace :: "char \<Rightarrow> bool" where
  "isSpace c = (c \<in> set [CHR 0x09, CHR 0x0A, CHR 0x0B, CHR 0x0C, CHR 0x0D, CHR 0x20])"

definition trim :: "string \<Rightarrow> string" where
  "trim s = rev (dropWhile isSpace (rev (dropWhile isSpace s)))"

text \<open>\<open>s.substring(a, b)\<close> (the smaller argument is the start) and \<open>s.slice(1, -1)\<close>.\<close>

definition substring :: "nat \<Rightarrow> nat \<Rightarrow> string \<Rightarrow> string" where
  "substring a b s = take (max a b - min a b) (drop (min a b) s)"

definition sliceInner :: "string \<Rightarrow> string" where
  "sliceInner s = take (length s - 2) (drop 1 s)"

text \<open>\<open>s.replace(a, b)\<close> with one-character strings: the first occurrence only.\<close>

fun replaceFirst :: "char \<Rightarrow> char \<Rightarrow> string \<Rightarrow> string" where
  "replaceFirst a b [] = []"
| "replaceFirst a b (c # cs) = (if c = a then b # cs else c # replaceFirst a b cs)"

fun joinWith :: "char \<Rightarrow> string list \<Rightarrow> string" where
  "joinWith sep [] = []"
| "joinWith sep [p] = p"
| "joinWith sep (p # q # ps) = p @ sep # joinWith sep (q # ps)"

record IPatternShortcust =
  singleStar :: bool
  doubleStar :: bool
  braketScope :: bool

text \<open>
  \<open>isInStringScope\<close> with the field names of the source: \<open>isInSingleQute\<close> tests for
  double quotes and \<open>isInDoubleQute\<close> for single quotes.
\<close>

definition isInSingleQute :: "string \<Rightarrow> bool" where
  "isInSingleQute v = (startsWith v [dquote] \<and> endsWith v [dquote])"

definition isInDoubleQute :: "string \<Rightarrow> bool" where
  "isInDoubleQute v = (startsWith v [squote] \<and> endsWith v [squote])"

text \<open>
  \<open>content.match(/^\*(\d*)\*$/)\<close>: \<open>None\<close> when there is no match, otherwise the
  captured digits. It is the only double-star expression \<open>createStep\<close> matches against;
  \<open>regxOfNumberBeforeDubble\<close> is declared in the source and never used.
\<close>

definition doubleStarMatch :: "string \<Rightarrow> string option" where
  "doubleStarMatch content =
     (if 2 \<le> length content \<and> startsWith content ''*'' \<and> endsWith content ''*'' \<and>
         list_all isDigit (sliceInner content)
      then Some (sliceInner content) else None)"

text \<open>The quoting applied to the content of a single-key token and to each part of a
  multi-key token (there \<open>trimmed\<close> is the part trimmed, and the part itself is rewritten).\<close>

definition repairQuotes :: "string \<Rightarrow> string \<Rightarrow> string" where
  "repairQuotes trimmed part =
     (if isInDoubleQute trimmed then part
      else if isInSingleQute trimmed then replaceFirst squote dquote part
      else if isInDoubleQute trimmed = False \<and> isInSingleQute trimmed = False
        then dquote # part @ [dquote]
      else replaceFirst squote dquote part)"

text \<open>
  \<open>JSON.parse(jsonrepair(content))\<close> comes from outside the repository and is the
  parameter \<open>parseJson\<close>: \<open>None\<close> when it throws.
\<close>

lemma trim_keeps_paren:
  assumes "startsWith token ''(''"
  shows "startsWith (trim token) ''(''"
proof -
  from assms obtain rest where token: "token = CHR ''('' # rest"
    by (cases token) (auto simp: startsWith_def)
  have ns: "\<not> isSpace CHR ''(''" by (simp add: isSpace_def)
  have "dropWhile isSpace (rev rest @ [CHR ''('']) = dropWhile isSpace (rev rest) @ [CHR ''('']"
    using ns by (induction "rev rest" arbitrary: rest) (auto simp: dropWhile_append3)
  then show ?thesis
    using ns by (simp add: trim_def token startsWith_def)
qed

function createStep ::
  "(string \<Rightarrow> jvalue option) \<Rightarrow> IPatternShortcust \<Rightarrow> string \<Rightarrow> error + PatternStep" where
  "createStep parseJson shortcuts token =
     (if startsWith token ''('' \<and> endsWith token '')'' then
        (let content = trim (substring 1 (length token - 1) token) in
         if content = ''*'' then Inr SingleStar
         else
           (case doubleStarMatch content of
              Some digits \<Rightarrow>
                Inr (if digits \<noteq> [] then DoubleStar (Some (parseInt digits)) else DoubleStar None)
            | None \<Rightarrow>
                if startsWith content ''{'' then
                  (case parseJson content of
                     Some conditions \<Rightarrow> Inr (ObjectCond conditions)
                   | None \<Rightarrow> Inl (Error (''Invalid object condition: '' @ content)))
                else if startsWith content ''['' then
                  (case parseJson content of
                     Some conditions \<Rightarrow> Inr (ArrayCond conditions)
                   | None \<Rightarrow> Inl (Error (''Invalid array condition: '' @ content)))
                else if CHR '','' \<notin> set content \<and> \<not> startsWith content ''['' \<and>
                        \<not> startsWith content ''{'' then
                  Inr (SingleKey (sliceInner (repairQuotes content content)))
                else if CHR '','' \<in> set content \<and> \<not> startsWith content ''['' \<and>
                        \<not> startsWith content ''{'' then
                  (let repairedContent =
                         joinWith CHR '',''
                           (map (\<lambda>part. repairQuotes (trim part) part) (splitOn CHR '','' content))
                   in Inr (MultiKey (map (\<lambda>s. sliceInner (trim s))
                                      (splitOn CHR '','' repairedContent))))
                else Inl (Error (''Unrecognized pattern token: '' @ token))))
      else if singleStar shortcuts = True \<and> trim token = ''*'' then
        createStep parseJson shortcuts (''('' @ token @ '')'')
      else if doubleStar shortcuts = True \<and> trim token = ''**'' then
        createStep parseJson shortcuts (''('' @ token @ '')'')
      else if braketScope shortcuts \<and> startsWith (trim token) ''['' \<and> endsWith (trim token) '']'' then
        createStep parseJson shortcuts
          (replaceFirst CHR '']'' CHR '')'' (replaceFirst CHR ''['' CHR ''('' (trim token)))
      else Inr (Property token))"
  by pat_completeness auto
termination
proof (relation "measure (\<lambda>(parseJson, shortcuts, token). if startsWith token ''('' then 0 else 1)")
  show "wf (measure (\<lambda>(parseJson, shortcuts, token). if startsWith token ''('' then 0 else (1::nat)))"
    by simp
next
  fix parseJson :: "string \<Rightarrow> jvalue option" and shortcuts :: IPatternShortcust and token :: string
  assume "singleStar shortcuts = True \<and> trim token = ''*''"
  then have "\<not> startsWith token ''(''"
    using trim_keeps_paren [of token] by (auto simp: startsWith_def)
  then show "((parseJson, shortcuts, ''('' @ token @ '')''), (parseJson, shortcuts, token))
      \<in> measure (\<lambda>(parseJson, shortcuts, token). if startsWith token ''('' then 0 else 1)"
    by (simp add: startsWith_def)
next
  fix parseJson :: "string \<Rightarrow> jvalue option" and shortcuts :: IPatternShortcust and token :: string
  assume "doubleStar shortcuts = True \<and> trim token = ''**''"
  then have "\<not> startsWith token ''(''"
    using trim_keeps_paren [of token] by (auto simp: startsWith_def)
  then show "((parseJson, shortcuts, ''('' @ token @ '')''), (parseJson, shortcuts, token))
      \<in> measure (\<lambda>(parseJson, shortcuts, token). if startsWith token ''('' then 0 else 1)"
    by (simp add: startsWith_def)
next
  fix parseJson :: "string \<Rightarrow> jvalue option" and shortcuts :: IPatternShortcust and token :: string
  assume "braketScope shortcuts \<and> startsWith (trim token) ''['' \<and> endsWith (trim token) '']''"
  then obtain rest where t: "trim token = CHR ''['' # rest"
    by (cases "trim token") (auto simp: startsWith_def)
  then have "\<not> startsWith token ''(''"
    using trim_keeps_paren [of token] by (auto simp: startsWith_def)
  then show "((parseJson, shortcuts,
        replaceFirst CHR '']'' CHR '')'' (replaceFirst CHR ''['' CHR ''('' (trim token))),
       (parseJson, shortcuts, token))
      \<in> measure (\<lambda>(parseJson, shortcuts, token). if startsWith token ''('' then 0 else 1)"
    by (simp add: t startsWith_def)
qed

declare createStep.simps [simp del]

text \<open>
  \<open>parsePattern\<close>: the scan keeps \<open>steps\<close>, \<open>current\<close>, \<open>depth\<close> (the field \<open>parenDepth\<close>) and
  \<open>inQuotes\<close>; \<open>prev\<close> is \<open>pattern[i - 1]\<close>, absent at \<open>i = 0\<close>. An error thrown by
  \<open>createStep\<close> ends the scan.
\<close>

record ParseState =
  steps :: "PatternStep list"
  current :: string
  parenDepth :: int
  inQuotes :: bool

text \<open>The body of the loop for one character \<open>c\<close>.\<close>

definition scanChar ::
  "(string \<Rightarrow> jvalue option) \<Rightarrow> IPatternShortcust \<Rightarrow> char option \<Rightarrow> char \<Rightarrow> ParseState \<Rightarrow> error + ParseState" where
  "scanChar parseJson shortcuts prev c st =
     (let q = (if c = dquote \<and> prev \<noteq> Some backslash then \<not> inQuotes st else inQuotes st) in
      if \<not> q then
        (let d1 = (if c = CHR ''('' then parenDepth st + 1 else parenDepth st);
             d2 = (if c = CHR '')'' then d1 - 1 else d1)
         in if c = CHR ''.'' \<and> d2 = 0 then
              (if current st \<noteq> [] then
                 (case createStep parseJson shortcuts (current st) of
                    Inl e \<Rightarrow> Inl e
                  | Inr step \<Rightarrow>
                      Inr \<lparr>steps = steps st @ [step], current = [], parenDepth = d2, inQuotes = q\<rparr>)
               else Inr \<lparr>steps = steps st, current = [], parenDepth = d2, inQuotes = q\<rparr>)
            else Inr \<lparr>steps = steps st, current = current st @ [c], parenDepth = d2, inQuotes = q\<rparr>)
      else Inr \<lparr>steps = steps st, current = current st @ [c], parenDepth = parenDepth st,
                inQuotes = q\<rparr>)"

fun scanPattern ::
  "(string \<Rightarrow> jvalue option) \<Rightarrow> IPatternShortcust \<Rightarrow> char option \<Rightarrow> string \<Rightarrow> ParseState \<Rightarrow> error + ParseState" where
  "scanPattern parseJson shortcuts prev [] st = Inr st"
| "scanPattern parseJson shortcuts prev (c # cs) st =
     (case scanChar parseJson shortcuts prev c st of
        Inl e \<Rightarrow> Inl e
      | Inr st' \<Rightarrow> scanPattern parseJson shortcuts (Some c) cs st')"

definition initialState :: ParseState where
  "initialState = \<lparr>steps = [], current = [], parenDepth = 0, inQuotes = False\<rparr>"

definition finishPattern ::
  "(string \<Rightarrow> jvalue option) \<Rightarrow> IPatternShortcust \<Rightarrow> ParseState \<Rightarrow> error + PatternStep list" where
  "finishPattern parseJson shortcuts st =
     (if current st \<noteq> [] then
        (case createStep parseJson shortcuts (current st) of
           Inl e \<Rightarrow> Inl e
         | Inr step \<Rightarrow> Inr (steps st @ [step]))
      else Inr (steps st))"

definition parsePattern ::
  "(string \<Rightarrow> jvalue option) \<Rightarrow> IPatternShortcust \<Rightarrow> string \<Rightarrow> error + PatternStep list" where
  "parsePattern parseJson shortcuts pattern =
     (case scanPattern parseJson shortcuts None pattern initialState of
        Inl e \<Rightarrow> Inl e
      | Inr st \<Rightarrow> finishPattern parseJson shortcuts st)"

section \<open>The entry point\<close>

text \<open>
  A pattern is a string, a list of segments joined with dots, or a function applied to
  \<open>{ setCondName }\<close>, where \<open>setCondName\<close> is the identity.
\<close>

datatype PatternSource =
    PatternString string
  | PatternSegments "string list"
  | PatternBuilder "(string \<Rightarrow> string) \<Rightarrow> string"

fun patternText :: "PatternSource \<Rightarrow> string" where
  "patternText (PatternBuilder f) = f (\<lambda>v. v)"
| "patternText (PatternString s) = s"
| "patternText (PatternSegments segs) = joinWith CHR ''.'' segs"

record ICustomEachOptions =
  injectedConditions :: "IJsonPatternCondition list"
  shortcuts :: "IPatternShortcust option"

definition defaultShortcuts :: "ICustomEachOptions \<Rightarrow> IPatternShortcust" where
  "defaultShortcuts options =
     (case shortcuts options of
        None \<Rightarrow> \<lparr>singleStar = True, doubleStar = True, braketScope = False\<rparr>
      | Some given \<Rightarrow> given)"

text \<open>
  Callbacks are observers here: \<open>traverseIn\<close> returns, in order, every invocation made
  (the callback and the node it was called for, the root excluded) and the error that
  ended the run, if any. What the mutators handed to a callback do is the subject of
  the next section.
\<close>

fun forEachPattern ::
  "(string \<Rightarrow> jvalue option) \<Rightarrow> prototype \<Rightarrow> jvalue \<Rightarrow> ICustomEachOptions \<Rightarrow>
   (PatternSource \<times> 'c) list \<Rightarrow> ('c \<times> TraversalNode) list \<times> error option" where
  "forEachPattern parseJson inherited data options [] = ([], None)"
| "forEachPattern parseJson inherited data options ((pat, callback) # rest) =
     (case parsePattern parseJson (defaultShortcuts options) (patternText pat) of
        Inl e \<Rightarrow> ([], Some e)
      | Inr compiled \<Rightarrow>
          (case runSteps inherited (injectedConditions options) compiled [rootNode data] of
             Inl e \<Rightarrow> ([], Some e)
           | Inr currentNodes \<Rightarrow>
               (let calls = map (\<lambda>tn. (callback, tn)) (filter (\<lambda>tn. key tn \<noteq> None) currentNodes);
                    later = forEachPattern parseJson inherited data options rest
                in (calls @ fst later, snd later))))"

definition traverseIn ::
  "(string \<Rightarrow> jvalue option) \<Rightarrow> prototype \<Rightarrow> jvalue \<Rightarrow> ICustomEachOptions \<Rightarrow>
   PatternSource list \<Rightarrow> 'c list \<Rightarrow> ('c \<times> TraversalNode) list \<times> error option" where
  "traverseIn parseJson inherited data options patterns callbacks =
     (if length patterns \<noteq> length callbacks
      then ([], Some (Error ''Patterns and callbacks must have the same length''))
      else forEachPattern parseJson inherited data options (zip patterns callbacks))"

section \<open>The mutation surface\<close>

text \<open>
  \<open>obj[k] = v\<close> on a plain object with the standard prototype. An existing entry keeps
  its place and takes the new value. Otherwise the key \<open>__proto__\<close> reaches the setter of
  the prototype and creates no entry; a new integer-like key (an array index, below
  \<open>2^32 - 1\<close>) is listed among the integer-like keys, which come first and in ascending
  order; any other new key goes to the end. \<open>delete obj[k]\<close> drops the entry.
\<close>

definition integerKey :: "string \<Rightarrow> nat option" where
  "integerKey k =
     (case arrayIndex k of
        Some i \<Rightarrow> if i < 4294967295 then Some i else None
      | None \<Rightarrow> None)"

fun insertIntegerKey :: "nat \<Rightarrow> string \<Rightarrow> jvalue \<Rightarrow> (string \<times> jvalue) list \<Rightarrow> (string \<times> jvalue) list" where
  "insertIntegerKey i k v [] = [(k, v)]"
| "insertIntegerKey i k v ((k', v') # es) =
     (case integerKey k' of
        Some j \<Rightarrow> if j < i then (k', v') # insertIntegerKey i k v es else (k, v) # (k', v') # es
      | None \<Rightarrow> (k, v) # (k', v') # es)"

definition assignProperty :: "string \<Rightarrow> jvalue \<Rightarrow> (string \<times> jvalue) list \<Rightarrow> (string \<times> jvalue) list" where
  "assignProperty k v es =
     (if k \<in> set (map fst es) then map (\<lambda>e. if fst e = k then (k, v) else e) es
      else if k = ''__proto__'' then es
      else (case integerKey k of
              Some i \<Rightarrow> insertIntegerKey i k v es
            | None \<Rightarrow> es @ [(k, v)]))"

definition deleteProperty :: "string \<Rightarrow> (string \<times> jvalue) list \<Rightarrow> (string \<times> jvalue) list" where
  "deleteProperty k es = filter (\<lambda>e. fst e \<noteq> k) es"

text \<open>
  The closures \<open>setKey\<close>, \<open>remove\<close> and \<open>removeNears\<close> capture \<open>parent\<close>, \<open>key\<close> and \<open>node\<close> of
  the matched node and write only through \<open>parent\<close>. Each is modelled as a function from
  the captured fields to the outcome of the call (\<open>Inl\<close> the error thrown) paired with
  the parent container as the call leaves it. The guard \<open>parent && !Array.isArray(parent)\<close>
  holds of an object and fails for an array and for \<open>null\<close>. These are the only parents a
  traversal records (lemma \<open>frontier_parents\<close> below), and the closures are specified on
  them alone.
\<close>

fun setKey :: "jvalue \<Rightarrow> jkey \<Rightarrow> jvalue \<Rightarrow> string \<Rightarrow> (error + unit) \<times> jvalue" where
  "setKey (JObject es) k nd newKey =
     (Inr (), JObject (deleteProperty (propertyName k) (assignProperty newKey nd es)))"
| "setKey (JArray xs) k nd newKey = (Inl UnsupportedOperation, JArray xs)"
| "setKey JNull k nd newKey = (Inl UnsupportedOperation, JNull)"

fun remove :: "jvalue \<Rightarrow> jkey \<Rightarrow> (error + unit) \<times> jvalue" where
  "remove (JObject es) k = (Inr (), JObject (deleteProperty (propertyName k) es))"
| "remove (JArray xs) k = (Inl UnsupportedOperation, JArray xs)"
| "remove JNull k = (Inl UnsupportedOperation, JNull)"

text \<open>
  \<open>Object.keys(parent).filter(item => item !== key)\<close> lists the entries to delete;
  \<open>!==\<close> between a string and a numeric key is always true.
\<close>

fun nears :: "jkey \<Rightarrow> (string \<times> jvalue) list \<Rightarrow> string list" where
  "nears k es = filter (\<lambda>item. KStr item \<noteq> k) (map fst es)"

fun removeNears :: "jvalue \<Rightarrow> jkey \<Rightarrow> (error + unit) \<times> jvalue" where
  "removeNears (JObject es) k =
     (Inr (), JObject (fold deleteProperty (nears k es) es))"
| "removeNears (JArray xs) k = (Inl UnsupportedOperation, JArray xs)"
| "removeNears JNull k = (Inl UnsupportedOperation, JNull)"

section \<open>Notions used in the statements\<close>

text \<open>
  A fixed step is a \<open>Property\<close> or a \<open>SingleKey\<close> step; \<open>stepName\<close> is the name it asks for.
\<close>

fun isFixedStep :: "PatternStep \<Rightarrow> bool" where
  "isFixedStep (Property nm) = True"
| "isFixedStep (SingleKey k) = True"
| "isFixedStep s = False"

fun stepName :: "PatternStep \<Rightarrow> string" where
  "stepName (Property nm) = nm"
| "stepName (SingleKey k) = k"
| "stepName s = []"

text \<open>
  Descendants, as the specification speaks of them: \<open>childAt v k\<close> is the child of the
  container \<open>v\<close> under the index or key \<open>k\<close>, and \<open>descend tn ks\<close> is the node reached from
  \<open>tn\<close> along the keys \<open>ks\<close>, with the parent, key and path a traversal records for it.
  Its relative depth is \<open>length ks\<close>; the anchor itself is \<open>descend tn []\<close>.
\<close>

fun childAt :: "jvalue \<Rightarrow> jkey \<Rightarrow> jvalue option" where
  "childAt (JArray xs) (KNum i) = (if i < length xs then Some (xs ! i) else None)"
| "childAt (JObject es) (KStr k) = map_of es k"
| "childAt v k = None"

fun descend :: "TraversalNode \<Rightarrow> jkey list \<Rightarrow> TraversalNode option" where
  "descend tn [] = Some tn"
| "descend tn (k # ks) =
     (case childAt (node tn) k of
        None \<Rightarrow> None
      | Some v \<Rightarrow> descend (childNode tn k v) ks)"

text \<open>A JavaScript object has each key once; the entry lists of the model must too.\<close>

fun distinctKeys :: "jvalue \<Rightarrow> bool" where
  "distinctKeys (JArray xs) = (\<forall>x \<in> set xs. distinctKeys x)"
| "distinctKeys (JObject es) = (distinct (map fst es) \<and> (\<forall>e \<in> set es. distinctKeys (snd e)))"
| "distinctKeys v = True"

text \<open>
  For the queue of the double-star loop: \<open>reach maxDepth q n\<close> says that \<open>n\<close> lies below
  the queued node \<open>q\<close> within the levels the bound leaves to \<open>q\<close>.
\<close>

definition withinBound :: "nat option \<Rightarrow> nat \<Rightarrow> nat \<Rightarrow> bool" where
  "withinBound maxDepth d l = (case maxDepth of None \<Rightarrow> True | Some m \<Rightarrow> l \<le> m - d)"

definition reach :: "nat option \<Rightarrow> DoubleStarNode \<Rightarrow> TraversalNode \<Rightarrow> bool" where
  "reach maxDepth q n =
     (\<exists>ks. withinBound maxDepth (depth q) (length ks) \<and> descend (emitted q) ks = Some n)"

text \<open>What a traversal may record as the parent of a node.\<close>

definition parentIsContainerOrNull :: "jvalue \<Rightarrow> bool" where
  "parentIsContainerOrNull p =
     (case p of JNull \<Rightarrow> True | JArray xs \<Rightarrow> True | JObject es \<Rightarrow> True | _ \<Rightarrow> False)"

text \<open>
  The scan of a pattern outside quotes: \<open>depthStep\<close> is the change of the parenthesis
  depth at one character, \<open>depthAfter\<close> the depth after a string, and \<open>singleToken d t\<close>
  says that no dot of \<open>t\<close> is met at depth 0 when the scan of \<open>t\<close> starts at depth \<open>d\<close>, so
  that \<open>t\<close> is read as one token.
\<close>

definition depthStep :: "int \<Rightarrow> char \<Rightarrow> int" where
  "depthStep d c = (if c = CHR ''('' then d + 1 else if c = CHR '')'' then d - 1 else d)"

fun singleToken :: "int \<Rightarrow> string \<Rightarrow> bool" where
  "singleToken d [] = True"
| "singleToken d (c # cs) = (\<not> (c = CHR ''.'' \<and> d = 0) \<and> singleToken (depthStep d c) cs)"

fun depthAfter :: "int \<Rightarrow> string \<Rightarrow> int" where
  "depthAfter d [] = d"
| "depthAfter d (c # cs) = depthAfter (depthStep d c) cs"

text \<open>
  The name that \<open>evaluateCondition\<close> looks up in the registry for a condition spec: the
  second part of the spec split at dots, and the whole first part if there is no second.
\<close>

definition lookedUpName :: "string \<Rightarrow> string" where
  "lookedUpName cond =
     (case splitOn CHR ''.'' cond of
        p # n # ps \<Rightarrow> n
      | [p] \<Rightarrow> p
      | [] \<Rightarrow> [])"

text \<open>
  What \<open>evaluateCondition\<close> reads off the first part of a spec: the spec targets the key
  unless that part ends in \<open>value\<close>, and it is negated when that part starts with \<open>!\<close>.
  \<open>numericKeyTest\<close> holds of a pair of a condition mapping that targets the key with one
  of the comparisons \<open>greaterThan\<close>, \<open>lessThan\<close>, \<open>between\<close>, or with \<open>equalWith\<close> and a
  number as argument.
\<close>

definition specPrefix :: "string \<Rightarrow> string" where
  "specPrefix cond = (case splitOn CHR ''.'' cond of p # ps \<Rightarrow> p | [] \<Rightarrow> [])"

definition keyTargeting :: "string \<Rightarrow> bool" where
  "keyTargeting cond = (\<not> endsWith (specPrefix cond) ''value'')"


definition numericKeyTest ::
  "(int \<Rightarrow> jvalue \<Rightarrow> bool) \<Rightarrow> (int \<Rightarrow> jvalue \<Rightarrow> bool) \<Rightarrow> (int \<Rightarrow> jvalue \<Rightarrow> bool) \<Rightarrow>
   IJsonPatternCondition list \<Rightarrow> string \<Rightarrow> jvalue \<Rightarrow> bool" where
  "numericKeyTest gt lt bt reg spec arg =
     (keyTargeting spec \<and>
      (case find (\<lambda>c. name c = lookedUpName spec) reg of
         None \<Rightarrow> False
       | Some c \<Rightarrow> c = greaterThan gt \<or> c = lessThan lt \<or> c = between bt \<or>
                   (c = equalWith \<and> typeofNumber arg)))"

section \<open>Properties of the mutation surface\<close>

lemma deleteProperty_insertIntegerKey:
  "deleteProperty k (insertIntegerKey i k v es) = deleteProperty k es"
  by (induction es) (auto simp: deleteProperty_def split: option.splits)

lemma deleteProperty_replace:
  "deleteProperty k (map (\<lambda>e. if fst e = k then (k, v) else e) es) = deleteProperty k es"
  by (induction es) (auto simp: deleteProperty_def)

lemma deleteProperty_assignProperty_same:
  "deleteProperty k (assignProperty k v es) = deleteProperty k es"
proof -
  have "deleteProperty k (es @ [(k, v)]) = deleteProperty k es"
    by (simp add: deleteProperty_def)
  then show ?thesis
    by (simp add: assignProperty_def deleteProperty_insertIntegerKey deleteProperty_replace
        split: option.splits)
qed

text \<open>
  C8. On a matched node whose parent is an array, each of \<open>setKey\<close>, \<open>remove\<close> and
  \<open>removeNears\<close> throws the error the specification calls \<open>UnsupportedOperation\<close>, and
  the array is left as it was.
\<close>

theorem array_parent_unsupported:
  "isArray p \<Longrightarrow>
     setKey p k nd newKey = (Inl UnsupportedOperation, p) \<and>
     remove p k = (Inl UnsupportedOperation, p) \<and>
     removeNears p k = (Inl UnsupportedOperation, p)"
  by (cases p) simp_all

theorem array_parent_unsupported_witness:
  "isArray (JArray [JNum 1, JNum 2]) \<and>
   setKey (JArray [JNum 1, JNum 2]) (KNum 0) (JNum 1) ''x'' =
     (Inl (Error ''Cannot rename array elements or root node''), JArray [JNum 1, JNum 2]) \<and>
   remove (JArray [JNum 1, JNum 2]) (KNum 0) =
     (Inl (Error ''Cannot rename array elements or root node''), JArray [JNum 1, JNum 2]) \<and>
   removeNears (JArray [JNum 1, JNum 2]) (KNum 0) =
     (Inl (Error ''Cannot rename array elements or root node''), JArray [JNum 1, JNum 2])"
  using array_parent_unsupported [of "JArray [JNum 1, JNum 2]" "KNum 0" "JNum 1" "''x''"]
  by (simp add: UnsupportedOperation_def)

text \<open>
  C9. Calling \<open>setKey\<close> with the key the node already has removes the entry: the
  assignment is followed by the unconditional \<open>delete\<close> of the old key, so the parent is
  left with its other entries only and no entry under that key.
\<close>

theorem setKey_same_key_deletes:
  "setKey (JObject es) (KStr k) nd k = (Inr (), JObject (deleteProperty k es)) \<and>
   map_of (deleteProperty k es) k = None \<and>
   deleteProperty k es = filter (\<lambda>e. fst e \<noteq> k) es"
proof -
  have "setKey (JObject es) (KStr k) nd k = (Inr (), JObject (deleteProperty k es))"
    by (simp add: deleteProperty_assignProperty_same)
  moreover have "map_of (deleteProperty k es) k = None"
    by (auto simp: deleteProperty_def map_of_eq_None_iff)
  moreover have "deleteProperty k es = filter (\<lambda>e. fst e \<noteq> k) es"
    by (simp add: deleteProperty_def)
  ultimately show ?thesis by blast
qed

section \<open>Properties of the condition evaluator\<close>

lemma splitOn_no_sep: "sep \<notin> set s \<Longrightarrow> splitOn sep s = [s]"
  by (induction s) auto

lemma splitOn_nonempty: "splitOn sep s \<noteq> []"
  by (induction s) (auto split: list.splits)

text \<open>
  C1 (as amended). A condition spec without a dot is both the prefix and the name that
  is looked up. The target handed to the predicate is the child's key, not its value;
  the value is selected only when the spec itself ends in \<open>value\<close>. The result is negated
  when the spec starts with \<open>!\<close>.
\<close>

theorem bare_condition_target:
  "CHR ''.'' \<notin> set cond \<Longrightarrow> find (\<lambda>c. name c = cond) reg = Some c \<Longrightarrow>
   evaluateCondition cond condValue k v reg =
     Inr (if startsWith cond ''!''
          then \<not> action c k v (if endsWith cond ''value'' then v else keyValue k) condValue
          else action c k v (if endsWith cond ''value'' then v else keyValue k) condValue)"
  by (simp add: evaluateCondition_def splitOn_no_sep Let_def)

theorem bare_condition_target_witness:
  "CHR ''.'' \<notin> set ''isString'' \<and>
   find (\<lambda>c. name c = ''isString'') [isNumber, isString] = Some isString \<and>
   evaluateCondition ''isString'' (JBool True) (KStr ''age'') (JNum 30) [isNumber, isString]
     = Inr True"
proof -
  have h1: "CHR ''.'' \<notin> set ''isString''" by simp
  have h2: "find (\<lambda>c. name c = ''isString'') [isNumber, isString] = Some isString"
    by (simp add: isNumber_def isString_def)
  from bare_condition_target [OF h1 h2, of "JBool True" "KStr ''age''" "JNum 30"] h1 h2
  show ?thesis by (simp add: startsWith_def endsWith_def isString_def)
qed

text \<open>
  The claim as stated fails: for the bare spec \<open>isNumber\<close>, the key \<open>age\<close> and the value
  \<open>30\<close> the evaluator answers false, because the predicate was given the key. With the
  value as target (the spec \<open>value.isNumber\<close>) the answer is true.
\<close>

theorem bare_condition_targets_key:
  "evaluateCondition ''isNumber'' (JBool True) (KStr ''age'') (JNum 30) [isNumber] = Inr False \<and>
   action isNumber (KStr ''age'') (JNum 30) (JNum 30) (JBool True) = True \<and>
   evaluateCondition ''value.isNumber'' (JBool True) (KStr ''age'') (JNum 30) [isNumber] = Inr True"
  by (simp add: evaluateCondition_def isNumber_def startsWith_def endsWith_def)

text \<open>
  Negation. A spec without a dot that is not in the registry ends the call with the
  lookup error; a leading \<open>!\<close> is part of the name looked up.
\<close>

lemma bare_condition_missing:
  "CHR ''.'' \<notin> set cond \<Longrightarrow> find (\<lambda>c. name c = cond) reg = None \<Longrightarrow>
   evaluateCondition cond condValue k v reg = Inl (Error (''Condition not found: '' @ cond))"
  by (simp add: evaluateCondition_def splitOn_no_sep)

lemma endsWith_bang: "endsWith (CHR ''!'' # p) ''value'' = endsWith p ''value''"
proof (cases "5 \<le> length p")
  case True
  then have e: "length p - Suc (Suc (Suc (Suc 0))) = Suc (length p - Suc (Suc (Suc (Suc (Suc 0)))))"
    by arith
  show ?thesis using True by (simp add: endsWith_def e)
next
  case False
  then have short: "length p < 5" by simp
  then have "\<not> endsWith p ''value''" by (simp add: endsWith_def)
  moreover have "\<not> endsWith (CHR ''!'' # p) ''value''"
  proof (cases "length p = 4")
    case True
    then show ?thesis by (simp add: endsWith_def)
  next
    case False
    with short show ?thesis by (simp add: endsWith_def)
  qed
  ultimately show ?thesis by simp
qed

text \<open>
  In the two-part form the \<open>!\<close> is stripped with the prefix: the name looked up and the
  target are those of the spec without it, and the result is the complement.
\<close>

lemma negation_two_part:
  assumes "\<not> startsWith spec ''!''" and "evaluateCondition spec condValue k v reg = Inr b"
    and "CHR ''.'' \<in> set spec"
  shows "evaluateCondition (CHR ''!'' # spec) condValue k v reg = Inr (\<not> b)"
proof -
  obtain p rest where sp: "splitOn CHR ''.'' spec = p # rest"
    using splitOn_nonempty [of "CHR ''.''" spec] by (cases "splitOn CHR ''.'' spec") auto
  have rest: "rest \<noteq> []"
  proof
    assume "rest = []"
    with sp have "splitOn CHR ''.'' spec = [p]" by simp
    moreover have "\<And>q. splitOn CHR ''.'' spec = [q] \<Longrightarrow> CHR ''.'' \<notin> set spec"
      by (induction spec) (auto split: if_splits list.splits simp: splitOn_nonempty)
    ultimately show False using assms(3) by blast
  qed
  then obtain n rest' where r: "rest = n # rest'" by (cases rest) auto
  have sp': "splitOn CHR ''.'' (CHR ''!'' # spec) = (CHR ''!'' # p) # n # rest'"
    by (simp add: sp r)
  have np: "\<not> startsWith p ''!''"
  proof
    assume "startsWith p ''!''"
    then obtain p' where "p = CHR ''!'' # p'" by (cases p) (auto simp: startsWith_def)
    with sp have "startsWith spec ''!''"
      by (cases spec) (auto simp: startsWith_def split: if_splits list.splits)
    with assms(1) show False by simp
  qed
  from assms(2) np show ?thesis
    by (auto simp: evaluateCondition_def sp sp' r endsWith_bang startsWith_def Let_def
        split: option.splits if_splits)
qed

text \<open>
  C5. The negation claim at the bare form: \<open>isNumber\<close> on the key \<open>age\<close> evaluates to
  false, so \<open>!isNumber\<close> should evaluate to true. The evaluator looks up the name
  \<open>!isNumber\<close> instead and throws; the two-part form \<open>!key.isNumber\<close> does return the
  complement of \<open>key.isNumber\<close>.
\<close>

theorem negated_bare_condition_not_found:
  "evaluateCondition ''isNumber'' (JBool True) (KStr ''age'') (JNum 30) [isNumber] = Inr False \<and>
   evaluateCondition ''!isNumber'' (JBool True) (KStr ''age'') (JNum 30) [isNumber]
     = Inl (Error ''Condition not found: !isNumber'') \<and>
   evaluateCondition ''key.isNumber'' (JBool True) (KStr ''age'') (JNum 30) [isNumber] = Inr False \<and>
   evaluateCondition ''!key.isNumber'' (JBool True) (KStr ''age'') (JNum 30) [isNumber] = Inr True"
  by (simp add: evaluateCondition_def isNumber_def startsWith_def endsWith_def)






lemma filterEntries_none:
  "\<forall>(k, v) \<in> set es. sat (KStr k) v = Inr False \<Longrightarrow> filterEntries sat es = Inr []"
  by (induction es) auto



lemma find_name_None:
  "n \<notin> set (map name reg) \<Longrightarrow> find (\<lambda>c. name c = n) reg = None"
  by (induction reg) auto














section \<open>Properties of the pattern compiler\<close>

text \<open>The branches of \<open>createStep\<close> that the statements below go through.\<close>

lemma createStep_plain:
  assumes "\<not> startsWith token ''(''" and "trim token \<noteq> ''*''" and "trim token \<noteq> ''**''"
    and "\<not> startsWith (trim token) ''[''"
  shows "createStep pj sc token = Inr (Property token)"
  by (subst createStep.simps) (simp only: assms if_False simp_thms)

lemma createStep_doubleStar:
  assumes "startsWith token ''(''" and "endsWith token '')''"
    and "trim (substring 1 (length token - 1) token) = content"
    and "content \<noteq> ''*''" and "doubleStarMatch content = Some ds"
  shows "createStep pj sc token = Inr (if ds \<noteq> [] then DoubleStar (Some (parseInt ds)) else DoubleStar None)"
  by (subst createStep.simps) (simp only: assms if_True if_False simp_thms Let_def option.case)

lemma createStep_singleKey:
  assumes "startsWith token ''(''" and "endsWith token '')''"
    and "trim (substring 1 (length token - 1) token) = content"
    and "content \<noteq> ''*''" and "doubleStarMatch content = None"
    and "\<not> startsWith content ''{''" and "\<not> startsWith content ''[''"
    and "CHR '','' \<notin> set content"
  shows "createStep pj sc token = Inr (SingleKey (sliceInner (repairQuotes content content)))"
  by (subst createStep.simps) (simp only: assms if_True if_False simp_thms Let_def option.case)

text \<open>
  A token that opens a parenthesis and does not close it is no error: none of the
  parenthesised forms and none of the shortcuts applies, and the token is a property
  name.
\<close>

lemma unterminated_token_is_property:
  assumes "startsWith token ''(''" and "\<not> endsWith token '')''"
  shows "createStep pj sc token = Inr (Property token)"
proof -
  from trim_keeps_paren [OF assms(1)] obtain rest where t: "trim token = CHR ''('' # rest"
    by (cases "trim token") (auto simp: startsWith_def)
  have "\<not> (startsWith token ''('' \<and> endsWith token '')'')" using assms(2) by simp
  moreover have "trim token \<noteq> ''*''" "trim token \<noteq> ''**''" "\<not> startsWith (trim token) ''[''"
    by (simp_all add: t startsWith_def)
  ultimately show ?thesis
    by (subst createStep.simps) (simp only: if_False simp_thms)
qed

lemma scanPattern_append:
  "scanPattern pj sc prev (p @ q) st =
     (case scanPattern pj sc prev p st of
        Inl e \<Rightarrow> Inl e
      | Inr st' \<Rightarrow> scanPattern pj sc (if p = [] then prev else Some (last p)) q st')"
  by (induction p arbitrary: prev st) (simp_all split: sum.splits)

text \<open>
  Compilation fails only where the JSON of a condition group does not parse.
\<close>

lemma createStep_error:
  "createStep pj sc token = Inl e \<Longrightarrow>
     \<exists>content. pj content = None \<and>
       (e = Error (''Invalid object condition: '' @ content) \<or>
        e = Error (''Invalid array condition: '' @ content))"
proof (induction pj sc token rule: createStep.induct)
  case (1 pj sc token)
  show ?case
  proof (cases "startsWith token ''('' \<and> endsWith token '')''")
    case True
    from "1.prems" True show ?thesis
      by (subst (asm) createStep.simps)
        (simp only: if_True simp_thms Let_def split: if_splits option.splits, auto)
  next
    case False
    note nf = False
    show ?thesis
    proof (cases "singleStar sc = True \<and> trim token = ''*''")
      case True
      have "createStep pj sc token = createStep pj sc (''('' @ token @ '')'')"
        using nf True
        by (subst createStep.simps) (simp only: if_True if_False simp_thms if_cancel)
      with "1.prems" have "createStep pj sc (''('' @ token @ '')'') = Inl e" by simp
      from "1.IH"(1) [OF nf True this] show ?thesis .
    next
      case False
      note n1 = False
      show ?thesis
      proof (cases "doubleStar sc = True \<and> trim token = ''**''")
        case True
        have "createStep pj sc token = createStep pj sc (''('' @ token @ '')'')"
          using nf n1 True
          by (subst createStep.simps) (simp only: if_True if_False simp_thms if_cancel)
        with "1.prems" have "createStep pj sc (''('' @ token @ '')'') = Inl e" by simp
        from "1.IH"(2) [OF nf n1 True this] show ?thesis .
      next
        case False
        note n2 = False
        show ?thesis
        proof (cases "braketScope sc \<and> startsWith (trim token) ''['' \<and> endsWith (trim token) '']''")
          case True
          have "createStep pj sc token = createStep pj sc
              (replaceFirst CHR '']'' CHR '')'' (replaceFirst CHR ''['' CHR ''('' (trim token)))"
            using nf n1 n2 True
            by (subst createStep.simps) (simp only: if_True if_False simp_thms if_cancel)
          with "1.prems" have "createStep pj sc
              (replaceFirst CHR '']'' CHR '')'' (replaceFirst CHR ''['' CHR ''('' (trim token))) = Inl e"
            by simp
          from "1.IH"(3) [OF nf n1 n2 True this] show ?thesis .
        next
          case False
          have "createStep pj sc token = Inr (Property token)"
            using nf n1 n2 False
            by (subst createStep.simps) (simp only: if_True if_False simp_thms if_cancel)
          with "1.prems" show ?thesis by simp
        qed
      qed
    qed
  qed
qed

lemma scanChar_error:
  "scanChar pj sc prev c st = Inl e \<Longrightarrow> createStep pj sc (current st) = Inl e"
  by (auto simp: scanChar_def Let_def split: if_splits sum.splits)

lemma scanPattern_error:
  "scanPattern pj sc prev p st = Inl e \<Longrightarrow> \<exists>token. createStep pj sc token = Inl e"
proof (induction p arbitrary: prev st)
  case Nil
  then show ?case by simp
next
  case (Cons c p)
  show ?case
  proof (cases "scanChar pj sc prev c st")
    case (Inl e')
    with Cons.prems have "e' = e" by simp
    with Inl scanChar_error show ?thesis by blast
  next
    case (Inr st')
    with Cons.prems have "scanPattern pj sc (Some c) p st' = Inl e" by simp
    from Cons.IH [OF this] show ?thesis .
  qed
qed

lemma parsePattern_error:
  assumes "parsePattern pj sc pattern = Inl e"
  shows "\<exists>content. pj content = None \<and>
       (e = Error (''Invalid object condition: '' @ content) \<or>
        e = Error (''Invalid array condition: '' @ content))"
proof -
  have "\<exists>token. createStep pj sc token = Inl e"
  proof (cases "scanPattern pj sc None pattern initialState")
    case (Inl e')
    with assms have "e' = e" by (simp add: parsePattern_def)
    with Inl scanPattern_error show ?thesis by blast
  next
    case (Inr st)
    with assms have "finishPattern pj sc st = Inl e" by (simp add: parsePattern_def)
    then have "createStep pj sc (current st) = Inl e"
      by (auto simp: finishPattern_def split: if_splits sum.splits)
    then show ?thesis ..
  qed
  with createStep_error show ?thesis by blast
qed

lemma scanPattern_single_token:
  assumes "dquote \<notin> set t" and "singleToken (parenDepth st) t" and "\<not> inQuotes st"
  shows "scanPattern pj sc prev t st
     = Inr \<lparr>steps = steps st, current = current st @ t,
            parenDepth = depthAfter (parenDepth st) t, inQuotes = False\<rparr>"
  using assms
proof (induction t arbitrary: st prev)
  case Nil
  then show ?case by simp
next
  case (Cons c t)
  let ?st' = "\<lparr>steps = steps st, current = current st @ [c],
               parenDepth = depthStep (parenDepth st) c, inQuotes = False\<rparr>"
  from Cons.prems have c: "c \<noteq> dquote" "\<not> (c = CHR ''.'' \<and> parenDepth st = 0)"
    and t: "dquote \<notin> set t" "singleToken (depthStep (parenDepth st) c) t"
    by auto
  have "scanChar pj sc prev c st = Inr ?st'"
    using c Cons.prems(3) by (auto simp: scanChar_def Let_def depthStep_def)
  moreover from Cons.IH [of ?st' "Some c"] t
  have "scanPattern pj sc (Some c) t ?st'
      = Inr \<lparr>steps = steps st, current = current st @ c # t,
             parenDepth = depthAfter (depthStep (parenDepth st) c) t, inQuotes = False\<rparr>"
    by simp
  ultimately show ?case by simp
qed

lemma parsePattern_last_token:
  assumes scan: "scanPattern pj sc None p initialState = Inr st"
    and top: "parenDepth st = 0" "\<not> inQuotes st"
    and ok: "parsePattern pj sc p = Inr compiled"
    and t: "t \<noteq> []" "dquote \<notin> set t" "singleToken 0 t"
  shows "parsePattern pj sc (p @ ''.'' @ t)
     = (case createStep pj sc t of Inl e \<Rightarrow> Inl e | Inr step \<Rightarrow> Inr (compiled @ [step]))"
proof -
  from ok scan have fin: "finishPattern pj sc st = Inr compiled"
    by (simp add: parsePattern_def)
  define prev where "prev = (if p = [] then None else Some (last p))"
  let ?st1 = "\<lparr>steps = compiled, current = [], parenDepth = 0, inQuotes = False\<rparr>"
  have dot: "scanChar pj sc prev CHR ''.'' st = Inr ?st1"
    using fin top
    by (auto simp: scanChar_def finishPattern_def Let_def dquote_def split: sum.splits if_splits)
  have "scanPattern pj sc (Some CHR ''.'') t ?st1
      = Inr \<lparr>steps = compiled, current = t, parenDepth = depthAfter 0 t, inQuotes = False\<rparr>"
    using scanPattern_single_token [of t ?st1 pj sc "Some CHR ''.''"] t by simp
  with dot have "scanPattern pj sc prev (''.'' @ t) st
      = Inr \<lparr>steps = compiled, current = t, parenDepth = depthAfter 0 t, inQuotes = False\<rparr>"
    by simp
  moreover have "scanPattern pj sc None (p @ (''.'' @ t)) initialState
      = scanPattern pj sc prev (''.'' @ t) st"
    by (simp only: scanPattern_append scan sum.case prev_def)
  ultimately have "scanPattern pj sc None (p @ (''.'' @ t)) initialState
      = Inr \<lparr>steps = compiled, current = t, parenDepth = depthAfter 0 t, inQuotes = False\<rparr>"
    by (simp only:)
  then show ?thesis
    using t(1)
    by (simp only: parsePattern_def sum.case) (simp add: finishPattern_def split: sum.splits)
qed

lemma singleToken_open:
  "0 < d \<Longrightarrow> CHR '')'' \<notin> set b \<Longrightarrow> singleToken d b"
proof (induction b arbitrary: d)
  case Nil
  then show ?case by simp
next
  case (Cons c b)
  then have "0 < depthStep d c" by (auto simp: depthStep_def)
  with Cons show ?case by auto
qed

lemma endsWith_unclosed:
  "CHR '')'' \<notin> set b \<Longrightarrow> \<not> endsWith (''('' @ b) '')''"
  by (cases b rule: rev_cases) (auto simp: endsWith_def)

text \<open>
  C2 (as amended). Compilation has no check for an unterminated parenthesis and raises
  nothing for it. (1) The only errors of \<open>parsePattern\<close>, on any pattern, are the two
  for a condition group whose JSON does not parse. (2, 3) A last token \<open>t\<close> without
  quotes, whatever parentheses it leaves open, is compiled by \<open>createStep\<close> like any
  other token, alone or after a pattern \<open>p\<close> whose scan ends outside quotes and
  parentheses. (4, 5) A token that opens a parenthesis and has no closing one at all,
  as in \<open>a.(\<close> and \<open>a.(b\<close>, compiles to the \<open>Property\<close> step of that name. Traversal then
  runs on these steps.
\<close>

theorem unterminated_paren_compiles:
  "(parsePattern pj sc pattern = Inl e \<longrightarrow>
      (\<exists>content. pj content = None \<and>
         (e = Error (''Invalid object condition: '' @ content) \<or>
          e = Error (''Invalid array condition: '' @ content)))) \<and>
   (t \<noteq> [] \<and> dquote \<notin> set t \<and> singleToken 0 t \<longrightarrow>
      parsePattern pj sc t
        = (case createStep pj sc t of Inl e' \<Rightarrow> Inl e' | Inr step \<Rightarrow> Inr [step])) \<and>
   (scanPattern pj sc None p initialState = Inr st \<and> parenDepth st = 0 \<and> \<not> inQuotes st \<and>
    parsePattern pj sc p = Inr compiled \<and> t \<noteq> [] \<and> dquote \<notin> set t \<and> singleToken 0 t \<longrightarrow>
      parsePattern pj sc (p @ ''.'' @ t)
        = (case createStep pj sc t of Inl e' \<Rightarrow> Inl e' | Inr step \<Rightarrow> Inr (compiled @ [step]))) \<and>
   (dquote \<notin> set b \<and> CHR '')'' \<notin> set b \<longrightarrow>
      createStep pj sc (''('' @ b) = Inr (Property (''('' @ b)) \<and>
      parsePattern pj sc (''('' @ b) = Inr [Property (''('' @ b)]) \<and>
   (scanPattern pj sc None p initialState = Inr st \<and> parenDepth st = 0 \<and> \<not> inQuotes st \<and>
    parsePattern pj sc p = Inr compiled \<and> dquote \<notin> set b \<and> CHR '')'' \<notin> set b \<longrightarrow>
      parsePattern pj sc (p @ ''.('' @ b) = Inr (compiled @ [Property (''('' @ b)]))"
proof -
  have lone: "parsePattern pj sc t
        = (case createStep pj sc t of Inl e' \<Rightarrow> Inl e' | Inr step \<Rightarrow> Inr [step])"
    if "t \<noteq> []" "dquote \<notin> set t" "singleToken 0 t" for t
  proof -
    have "scanPattern pj sc None t initialState
        = Inr \<lparr>steps = [], current = t, parenDepth = depthAfter 0 t, inQuotes = False\<rparr>"
      using scanPattern_single_token [of t initialState pj sc None] that
      by (simp add: initialState_def)
    then show ?thesis
      using that(1)
      by (simp only: parsePattern_def sum.case) (simp add: finishPattern_def split: sum.splits)
  qed
  have tok: "t \<noteq> [] \<and> dquote \<notin> set t \<and> singleToken 0 t \<and>
      createStep pj sc t = Inr (Property t)"
    if "dquote \<notin> set b" "CHR '')'' \<notin> set b" "t = ''('' @ b" for t b
  proof -
    have "singleToken 1 b" using that(2) by (intro singleToken_open) simp_all
    moreover have "createStep pj sc (''('' @ b) = Inr (Property (''('' @ b))"
      using endsWith_unclosed [OF that(2)]
      by (intro unterminated_token_is_property) (simp_all add: startsWith_def)
    ultimately show ?thesis using that by (simp add: depthStep_def dquote_def)
  qed
  have c1: "parsePattern pj sc pattern = Inl e \<longrightarrow>
      (\<exists>content. pj content = None \<and>
         (e = Error (''Invalid object condition: '' @ content) \<or>
          e = Error (''Invalid array condition: '' @ content)))"
    using parsePattern_error by blast
  have c2: "t \<noteq> [] \<and> dquote \<notin> set t \<and> singleToken 0 t \<longrightarrow>
      parsePattern pj sc t
        = (case createStep pj sc t of Inl e' \<Rightarrow> Inl e' | Inr step \<Rightarrow> Inr [step])"
    using lone by blast
  have c3: "scanPattern pj sc None p initialState = Inr st \<and> parenDepth st = 0 \<and> \<not> inQuotes st \<and>
    parsePattern pj sc p = Inr compiled \<and> t \<noteq> [] \<and> dquote \<notin> set t \<and> singleToken 0 t \<longrightarrow>
      parsePattern pj sc (p @ ''.'' @ t)
        = (case createStep pj sc t of Inl e' \<Rightarrow> Inl e' | Inr step \<Rightarrow> Inr (compiled @ [step]))"
    using parsePattern_last_token by blast
  have c4: "dquote \<notin> set b \<and> CHR '')'' \<notin> set b \<longrightarrow>
      createStep pj sc (''('' @ b) = Inr (Property (''('' @ b)) \<and>
      parsePattern pj sc (''('' @ b) = Inr [Property (''('' @ b)]"
  proof
    assume b: "dquote \<notin> set b \<and> CHR '')'' \<notin> set b"
    from tok [of b "''('' @ b"] b
    have t: "''('' @ b \<noteq> []" "dquote \<notin> set (''('' @ b)" "singleToken 0 (''('' @ b)"
      "createStep pj sc (''('' @ b) = Inr (Property (''('' @ b))"
      by blast+
    from lone [OF t(1-3)] t(4)
    show "createStep pj sc (''('' @ b) = Inr (Property (''('' @ b)) \<and>
      parsePattern pj sc (''('' @ b) = Inr [Property (''('' @ b)]"
      by (simp only: sum.case simp_thms)
  qed
  have c5: "scanPattern pj sc None p initialState = Inr st \<and> parenDepth st = 0 \<and> \<not> inQuotes st \<and>
    parsePattern pj sc p = Inr compiled \<and> dquote \<notin> set b \<and> CHR '')'' \<notin> set b \<longrightarrow>
      parsePattern pj sc (p @ ''.('' @ b) = Inr (compiled @ [Property (''('' @ b)])"
  proof
    assume h: "scanPattern pj sc None p initialState = Inr st \<and> parenDepth st = 0 \<and> \<not> inQuotes st \<and>
      parsePattern pj sc p = Inr compiled \<and> dquote \<notin> set b \<and> CHR '')'' \<notin> set b"
    from tok [of b "''('' @ b"] h
    have t: "''('' @ b \<noteq> []" "dquote \<notin> set (''('' @ b)" "singleToken 0 (''('' @ b)"
      "createStep pj sc (''('' @ b) = Inr (Property (''('' @ b))"
      by blast+
    from h have "scanPattern pj sc None p initialState = Inr st" "parenDepth st = 0"
      "\<not> inQuotes st" "parsePattern pj sc p = Inr compiled" by blast+
    from parsePattern_last_token [OF this t(1-3)] t(4)
    have "parsePattern pj sc (p @ ''.'' @ ''('' @ b) = Inr (compiled @ [Property (''('' @ b)])"
      by (simp only: sum.case)
    then show "parsePattern pj sc (p @ ''.('' @ b) = Inr (compiled @ [Property (''('' @ b)])"
      by simp
  qed
  from c1 c2 c3 c4 c5 show ?thesis by (intro conjI)
qed


theorem unterminated_paren_compiles_witness:
  "parsePattern (\<lambda>s. None) \<lparr>singleStar = True, doubleStar = True, braketScope = False\<rparr> ''({x})''
     = Inl (Error ''Invalid object condition: {x}'') \<and>
   scanPattern (\<lambda>s. None) \<lparr>singleStar = True, doubleStar = True, braketScope = False\<rparr> None ''a''
       initialState
     = Inr \<lparr>steps = [], current = ''a'', parenDepth = 0, inQuotes = False\<rparr> \<and>
   parsePattern (\<lambda>s. None) \<lparr>singleStar = True, doubleStar = True, braketScope = False\<rparr> ''a''
     = Inr [Property ''a''] \<and>
   parsePattern (\<lambda>s. None) \<lparr>singleStar = True, doubleStar = True, braketScope = False\<rparr> ''a.(''
     = Inr [Property ''a'', Property ''(''] \<and>
   parsePattern (\<lambda>s. None) \<lparr>singleStar = True, doubleStar = True, braketScope = False\<rparr> ''a.(b''
     = Inr [Property ''a'', Property ''(b''] \<and>
   parsePattern (\<lambda>s. None) \<lparr>singleStar = True, doubleStar = True, braketScope = False\<rparr> ''a.((b)''
     = Inr [Property ''a'', SingleKey ''(b''] \<and>
   parsePattern (\<lambda>s. None) \<lparr>singleStar = True, doubleStar = True, braketScope = False\<rparr> ''(a.b''
     = Inr [Property ''(a.b'']"
proof -
  let ?pj = "\<lambda>s :: string. None :: jvalue option"
  let ?sc = "\<lparr>singleStar = True, doubleStar = True, braketScope = False\<rparr>"
  let ?st = "\<lparr>steps = [], current = ''a'', parenDepth = 0, inQuotes = False\<rparr>"
  have a: "createStep ?pj ?sc ''a'' = Inr (Property ''a'')"
    by (rule createStep_plain) (simp_all add: startsWith_def trim_def isSpace_def)
  have h1: "scanPattern ?pj ?sc None ''a'' initialState = Inr ?st"
    by (simp add: initialState_def scanChar_def dquote_def)
  have h4: "parsePattern ?pj ?sc ''a'' = Inr [Property ''a'']"
    by (simp only: parsePattern_def h1 sum.case) (simp add: finishPattern_def a)
  have x: "createStep ?pj ?sc ''({x})'' = Inl (Error ''Invalid object condition: {x}'')"
    by (subst createStep.simps)
      (simp add: startsWith_def endsWith_def substring_def trim_def isSpace_def doubleStarMatch_def)
  have k: "createStep ?pj ?sc ''((b)'' = Inr (SingleKey ''(b'')"
  proof -
    have "createStep ?pj ?sc ''((b)'' = Inr (SingleKey (sliceInner (repairQuotes ''(b'' ''(b'')))"
      by (rule createStep_singleKey)
        (simp_all add: startsWith_def endsWith_def substring_def trim_def isSpace_def
          doubleStarMatch_def)
    then show ?thesis
      by (simp add: sliceInner_def repairQuotes_def isInDoubleQute_def isInSingleQute_def
          startsWith_def endsWith_def squote_def dquote_def)
  qed
  have e1: "parsePattern ?pj ?sc ''({x})'' = Inl (Error ''Invalid object condition: {x}'')"
    using unterminated_paren_compiles [of ?pj ?sc _ _ "''({x})''"] x
    by (simp add: dquote_def depthStep_def)
  have e2: "parsePattern ?pj ?sc ''a.(''  = Inr [Property ''a'', Property ''('']"
    using unterminated_paren_compiles [of ?pj ?sc _ _ _ "''a''" ?st "[Property ''a'']" "''''"] h1 h4
    by simp
  have e3: "parsePattern ?pj ?sc ''a.(b''  = Inr [Property ''a'', Property ''(b'']"
    using unterminated_paren_compiles [of ?pj ?sc _ _ _ "''a''" ?st "[Property ''a'']" "''b''"] h1 h4
    by (simp add: dquote_def)
  have e4: "parsePattern ?pj ?sc ''a.((b)''  = Inr [Property ''a'', SingleKey ''(b'']"
    using unterminated_paren_compiles [of ?pj ?sc _ _ "''((b)''" "''a''" ?st "[Property ''a'']"] h1 h4 k
    by (simp add: dquote_def depthStep_def)
  have e5: "parsePattern ?pj ?sc ''(a.b''  = Inr [Property ''(a.b'']"
    using unterminated_paren_compiles [of ?pj ?sc _ _ _ _ _ _ "''a.b''"]
    by (simp add: dquote_def)
  from e1 h1 h4 e2 e3 e4 e5 show ?thesis by (intro conjI)
qed

text \<open>
  The claim as stated fails: the pattern \<open>a.(\<close> raises nothing, and the callback of the
  batch is invoked, here for the entry \<open>(\<close> of \<open>{a: {'(': 1}}\<close>.
\<close>

theorem unterminated_pattern_runs_callback:
  "traverseIn (\<lambda>s. None) nullPrototype (JObject [(''a'', JObject [(''('', JNum 1)])])
       \<lparr>injectedConditions = [], shortcuts = None\<rparr> [PatternString ''a.(''] [''callback0'']
     = ([(''callback0'', \<lparr>node = JNum 1, parent = JObject [(''('', JNum 1)],
                          key = Some (KStr ''(''), path = [KStr ''a'', KStr ''('']\<rparr>)], None)"
proof -
  let ?sc = "\<lparr>singleStar = True, doubleStar = True, braketScope = False\<rparr>"
  have a: "createStep (\<lambda>s. None) ?sc ''a'' = Inr (Property ''a'')"
    by (rule createStep_plain) (simp_all add: startsWith_def trim_def isSpace_def)
  have b: "createStep (\<lambda>s. None) ?sc ''('' = Inr (Property ''('')"
    by (rule unterminated_token_is_property) (simp_all add: startsWith_def endsWith_def)
  have p: "parsePattern (\<lambda>s. None) ?sc ''a.('' = Inr [Property ''a'', Property ''('']"
    by (simp add: parsePattern_def initialState_def finishPattern_def scanChar_def dquote_def a b)
  show ?thesis
    by (simp add: traverseIn_def defaultShortcuts_def p rootNode_def keyStep_def lookupProperty_def
        childNode_def nullPrototype_def)
qed

lemma trim_id: "s \<noteq> [] \<Longrightarrow> \<not> isSpace (hd s) \<Longrightarrow> \<not> isSpace (last s) \<Longrightarrow> trim s = s"
proof -
  assume a: "s \<noteq> []" "\<not> isSpace (hd s)" "\<not> isSpace (last s)"
  then have "dropWhile isSpace s = s" by (cases s) auto
  moreover have "dropWhile isSpace (rev s) = rev s"
    using a by (cases "rev s") (auto simp: last_rev hd_rev)
  ultimately show ?thesis by (simp add: trim_def)
qed

lemma digit_not_special:
  "isDigit d \<Longrightarrow> d \<noteq> CHR ''*'' \<and> d \<noteq> CHR '','' \<and> d \<noteq> CHR ''{'' \<and> d \<noteq> CHR ''['' \<and>
     d \<noteq> squote \<and> d \<noteq> dquote \<and> \<not> isSpace d"
  by (auto simp: isDigit_def squote_def dquote_def isSpace_def)

text \<open>
  C3 (as amended). The depth bound is written between the stars: for a non-empty
  string \<open>ds\<close> of at most 15 digits, the token \<open>(*ds*)\<close> compiles to a \<open>DoubleStar\<close> step
  bounded by the number \<open>ds\<close> denotes. With the digits before the stars, \<open>(ds**)\<close> is not
  a double-star token: it compiles to the \<open>SingleKey\<close> step for the key \<open>ds**\<close>.
\<close>

theorem depth_between_stars:
  assumes "ds \<noteq> []" and "list_all isDigit ds" and "length ds \<le> 15"
  shows "createStep pj sc (''(*'' @ ds @ ''*)'') = Inr (DoubleStar (Some (parseInt ds))) \<and>
         createStep pj sc (''('' @ ds @ ''**)'') = Inr (SingleKey (ds @ ''**''))"
proof
  define content where "content = ''*'' @ ds @ ''*''"
  define token where "token = ''(*'' @ ds @ ''*)''"
  have t1: "startsWith token ''(''" "endsWith token '')''"
    by (simp_all add: token_def startsWith_def endsWith_def)
  have "substring 1 (length token - 1) token = content"
    by (simp add: token_def content_def substring_def)
  moreover have "trim content = content"
    by (rule trim_id) (simp_all add: content_def isSpace_def)
  ultimately have t2: "trim (substring 1 (length token - 1) token) = content" by simp
  have t3: "content \<noteq> ''*''" using assms(1) by (simp add: content_def)
  have t4: "doubleStarMatch content = Some ds"
    using assms by (simp add: content_def doubleStarMatch_def startsWith_def endsWith_def sliceInner_def)
  from createStep_doubleStar [OF t1 t2 t3 t4, of pj sc] assms(1)
  show "createStep pj sc (''(*'' @ ds @ ''*)'') = Inr (DoubleStar (Some (parseInt ds)))"
    by (simp add: token_def)
next
  define content where "content = ds @ ''**''"
  define token where "token = ''('' @ ds @ ''**)''"
  from assms obtain d ds' where ds: "ds = d # ds'" "isDigit d" by (cases ds) auto
  note dn = digit_not_special [OF ds(2)]
  have t1: "startsWith token ''(''" "endsWith token '')''"
    by (simp_all add: token_def startsWith_def endsWith_def)
  have "substring 1 (length token - 1) token = content"
    by (simp add: token_def content_def substring_def)
  moreover have "trim content = content"
    by (rule trim_id) (use dn in \<open>simp_all add: content_def isSpace_def ds\<close>)
  ultimately have t2: "trim (substring 1 (length token - 1) token) = content" by simp
  have t3: "content \<noteq> ''*''" by (simp add: content_def ds)
  have t4: "doubleStarMatch content = None"
    using dn by (simp add: content_def doubleStarMatch_def startsWith_def ds)
  have t5: "\<not> startsWith content ''{''" "\<not> startsWith content ''[''"
    using dn by (simp_all add: content_def startsWith_def ds)
  have t6: "CHR '','' \<notin> set content"
    using assms(2) digit_not_special by (auto simp: content_def list_all_iff)
  have rq: "repairQuotes content content = dquote # content @ [dquote]"
    using dn by (simp add: content_def repairQuotes_def isInDoubleQute_def isInSingleQute_def
        startsWith_def ds)
  have "sliceInner (repairQuotes content content) = content"
    by (simp add: rq sliceInner_def)
  with createStep_singleKey [OF t1 t2 t3 t4 t5 t6, of pj sc]
  show "createStep pj sc (''('' @ ds @ ''**)'') = Inr (SingleKey (ds @ ''**''))"
    by (simp add: token_def content_def)
qed

theorem depth_between_stars_witness:
  "''3'' \<noteq> [] \<and> list_all isDigit ''3'' \<and> length ''3'' \<le> 15 \<and>
   createStep (\<lambda>s. None) \<lparr>singleStar = True, doubleStar = True, braketScope = False\<rparr> ''(*3*)''
     = Inr (DoubleStar (Some 3)) \<and>
   createStep (\<lambda>s. None) \<lparr>singleStar = True, doubleStar = True, braketScope = False\<rparr> ''(3**)''
     = Inr (SingleKey ''3**'')"
proof -
  have h1: "''3'' \<noteq> []" and h2: "list_all isDigit ''3''" and h3: "length ''3'' \<le> 15"
    by (simp_all add: isDigit_def)
  have "parseInt ''3'' = 3" by (simp add: parseInt_def digitValue_def)
  with depth_between_stars [OF h1 h2 h3, of "\<lambda>s. None"
      "\<lparr>singleStar = True, doubleStar = True, braketScope = False\<rparr>"] h1 h2
  show ?thesis by simp
qed

text \<open>
  The claim as stated fails at its own example: \<open>(2**)\<close> compiles to the \<open>SingleKey\<close>
  step for the key \<open>2**\<close>, not to a \<open>DoubleStar\<close> step of depth 2.
\<close>

theorem digit_before_stars_is_single_key:
  "createStep (\<lambda>s. None) \<lparr>singleStar = True, doubleStar = True, braketScope = False\<rparr> ''(2**)''
     = Inr (SingleKey ''2**'')"
proof -
  have "createStep (\<lambda>s. None) \<lparr>singleStar = True, doubleStar = True, braketScope = False\<rparr> ''(2**)''
      = Inr (SingleKey (sliceInner (repairQuotes ''2**'' ''2**'')))"
    by (rule createStep_singleKey)
       (simp_all add: startsWith_def endsWith_def substring_def trim_def isSpace_def
         doubleStarMatch_def)
  then show ?thesis
    by (simp add: sliceInner_def repairQuotes_def isInDoubleQute_def isInSingleQute_def
        startsWith_def endsWith_def squote_def dquote_def)
qed

section \<open>Properties of the traversal engine\<close>

subsection \<open>Fixed paths\<close>

lemma keyStep_cases:
  "keyStep inh k tn = [] \<or> (\<exists>v. keyStep inh k tn = [childNode tn (KStr k) v])"
  by (auto simp: keyStep_def split: option.splits)

lemma applyStep_fixed:
  assumes "isFixedStep s"
  shows "applyStep inh reg s tn = Inr [] \<or>
         (\<exists>v. applyStep inh reg s tn = Inr [childNode tn (KStr (stepName s)) v])"
  using assms keyStep_cases [of inh "stepName s" tn] by (cases s) auto

lemma nextNodes_fixed:
  assumes "isFixedStep s" and "length cur \<le> 1" and "\<forall>tn \<in> set cur. path tn = p"
  shows "\<exists>nxt. nextNodes inh reg s cur = Inr nxt \<and> length nxt \<le> 1 \<and>
           (\<forall>tn \<in> set nxt. path tn = p @ [KStr (stepName s)])"
proof (cases cur)
  case Nil
  then show ?thesis by simp
next
  case (Cons tn rest)
  with assms(2) have rest: "rest = []" by simp
  from assms(3) Cons have p: "path tn = p" by simp
  from applyStep_fixed [OF assms(1), of inh reg tn] show ?thesis
  proof
    assume "applyStep inh reg s tn = Inr []"
    then show ?thesis by (simp add: Cons rest)
  next
    assume "\<exists>v. applyStep inh reg s tn = Inr [childNode tn (KStr (stepName s)) v]"
    then obtain v where "applyStep inh reg s tn = Inr [childNode tn (KStr (stepName s)) v]" ..
    then show ?thesis by (simp add: Cons rest childNode_def p)
  qed
qed

lemma runSteps_fixed:
  assumes "\<forall>s \<in> set stps. isFixedStep s" and "length cur \<le> 1" and "\<forall>tn \<in> set cur. path tn = p"
  shows "\<exists>final. runSteps inh reg stps cur = Inr final \<and> length final \<le> 1 \<and>
           (\<forall>tn \<in> set final. path tn = p @ map (\<lambda>s. KStr (stepName s)) stps)"
  using assms
proof (induction stps arbitrary: cur p)
  case Nil
  then show ?case by simp
next
  case (Cons s stps)
  from Cons.prems(1) have s: "isFixedStep s" and rest: "\<forall>s \<in> set stps. isFixedStep s"
    by simp_all
  from nextNodes_fixed [OF s Cons.prems(2,3), of inh reg]
  obtain nxt where n: "nextNodes inh reg s cur = Inr nxt" "length nxt \<le> 1"
    "\<forall>tn \<in> set nxt. path tn = p @ [KStr (stepName s)]" by blast
  from Cons.IH [OF rest n(2,3)] n(1) show ?case by simp
qed

text \<open>
  C7. For a pattern of \<open>Property\<close> and \<open>SingleKey\<close> steps only, over any data, registry
  and inherited members, the traversal ends without error in a frontier of at most one
  node, and the path of a node in it is the list of the step names.
\<close>

theorem fixed_path_single_match:
  assumes "\<forall>s \<in> set stps. isFixedStep s"
  shows "\<exists>final. runSteps inh reg stps [rootNode data] = Inr final \<and> length final \<le> 1 \<and>
           (\<forall>tn \<in> set final. path tn = map (\<lambda>s. KStr (stepName s)) stps)"
  using runSteps_fixed [OF assms, of "[rootNode data]" "[]" inh reg] by (simp add: rootNode_def)

theorem fixed_path_single_match_witness:
  "isFixedStep (Property ''a'') \<and> isFixedStep (SingleKey ''b'') \<and>
   (\<exists>final. runSteps nullPrototype [] [Property ''a'', SingleKey ''b'']
               [rootNode (JObject [(''a'', JObject [(''b'', JNum 1)])])] = Inr final \<and>
      final = [\<lparr>node = JNum 1, parent = JObject [(''b'', JNum 1)], key = Some (KStr ''b''),
                path = [KStr ''a'', KStr ''b'']\<rparr>] \<and>
      length final \<le> 1 \<and>
      (\<forall>tn \<in> set final. path tn = [KStr ''a'', KStr ''b'']))"
proof -
  have h: "\<forall>s \<in> set [Property ''a'', SingleKey ''b'']. isFixedStep s" by simp
  from fixed_path_single_match [OF h, of nullPrototype "[]" "JObject [(''a'', JObject [(''b'', JNum 1)])]"]
  show ?thesis
    by (simp add: rootNode_def keyStep_def lookupProperty_def childNode_def)
qed

subsection \<open>The double star\<close>

lemma descend_path: "descend tn ks = Some n \<Longrightarrow> path n = path tn @ ks"
  by (induction ks arbitrary: tn) (auto simp: childNode_def split: option.splits)

lemma sum_indicator_unique:
  fixes g :: "'a \<Rightarrow> 'b"
  assumes "distinct (map g cs)" and "\<forall>c \<in> set cs. Q c \<longrightarrow> g c = a"
  shows "sum_list (map (\<lambda>c. if Q c then 1 else 0) cs) = (if \<exists>c \<in> set cs. Q c then 1 else (0::nat))"
  using assms
proof (induction cs)
  case Nil
  then show ?case by simp
next
  case (Cons c cs)
  show ?case
  proof (cases "Q c")
    case True
    then have "g c = a" using Cons.prems(2) by simp
    have "\<forall>c' \<in> set cs. \<not> Q c'"
    proof (intro ballI notI)
      fix c' assume c': "c' \<in> set cs" "Q c'"
      then have "g c' = g c" using Cons.prems(2) \<open>g c = a\<close> by simp
      moreover have "g c \<notin> g ` set cs" using Cons.prems(1) by simp
      ultimately show False using c'(1) by (metis imageI)
    qed
    then have "sum_list (map (\<lambda>c. if Q c then 1 else 0) cs) = (0::nat)"
      by (induction cs) auto
    with True show ?thesis by simp
  next
    case False
    with Cons show ?thesis by simp
  qed
qed

lemma enqueueChildren_keys_distinct:
  "distinctKeys (node q) \<Longrightarrow> distinct (map key (enqueueChildren q))"
proof (cases "node q")
  case (JArray xs)
  have "map key (enqueueChildren q) = map (\<lambda>i. Some (KNum i)) (map fst (zip [0..<length xs] xs))"
    by (simp add: enqueueChildren_def JArray enumerate_eq_zip case_prod_unfold comp_def del: map_fst_zip)
  also have "\<dots> = map (\<lambda>i. Some (KNum i)) [0..<length xs]"
    by (simp only: map_fst_zip length_upt diff_zero)
  finally have "map key (enqueueChildren q) = map (\<lambda>i. Some (KNum i)) [0..<length xs]" .
  then show ?thesis by (simp add: distinct_map inj_on_def)
next
  case (JObject es)
  assume "distinctKeys (node q)"
  then have d: "distinct (map fst es)" by (simp add: JObject)
  have "map key (enqueueChildren q) = map (\<lambda>k. Some (KStr k)) (map fst es)"
    by (simp add: enqueueChildren_def JObject case_prod_unfold comp_def)
  with d show ?thesis by (simp add: distinct_map inj_on_def)
qed (simp_all add: enqueueChildren_def)

lemma enqueueChildren_distinctKeys:
  "distinctKeys (node q) \<Longrightarrow> c \<in> set (enqueueChildren q) \<Longrightarrow> distinctKeys (node c)"
  by (cases "node q") (auto simp: enqueueChildren_def enumerate_eq_zip dest: set_zip_rightD)

text \<open>What the loop enqueues for \<open>q\<close> is one node for each child of \<open>q\<close>.\<close>

lemma enqueueChildren_childAt:
  assumes "distinctKeys (node q)"
  shows "(\<exists>c \<in> set (enqueueChildren q). emitted c = childNode (emitted q) k v \<and> depth c = depth q + 1)
          \<longleftrightarrow> childAt (node q) k = Some v"
proof (cases "node q")
  case (JArray xs)
  show ?thesis
  proof (cases k)
    case (KNum i)
    show ?thesis
      by (auto simp: enqueueChildren_def JArray KNum emitted_def childNode_def in_set_enumerate_eq
          image_iff Bex_def)
  next
    case (KStr s)
    show ?thesis
      by (auto simp: enqueueChildren_def JArray KStr emitted_def childNode_def)
  qed
next
  case (JObject es)
  from assms have d: "distinct (map fst es)" by (simp add: JObject)
  show ?thesis
  proof (cases k)
    case (KNum i)
    show ?thesis
      by (auto simp: enqueueChildren_def JObject KNum emitted_def childNode_def)
  next
    case (KStr s)
    have "(\<exists>c \<in> set (enqueueChildren q). emitted c = childNode (emitted q) k v \<and> depth c = depth q + 1)
        \<longleftrightarrow> (s, v) \<in> set es"
      by (force simp: enqueueChildren_def JObject KStr emitted_def childNode_def)
    with d show ?thesis by (simp add: JObject KStr)
  qed
qed (simp_all add: enqueueChildren_def)

lemma enqueueChildren_shape:
  "c \<in> set (enqueueChildren q) \<Longrightarrow>
     \<exists>k v. emitted c = childNode (emitted q) k v \<and> depth c = depth q + 1 \<and> key c = Some k"
  by (cases "node q")
     (auto simp: enqueueChildren_def emitted_def childNode_def)

lemma reach_reached:
  assumes "depthReached md (depth q)"
  shows "reach md q n \<longleftrightarrow> emitted q = n"
proof -
  from assms obtain m where m: "md = Some m" "m \<le> depth q"
    by (auto simp: depthReached_def split: option.splits)
  show ?thesis
  proof
    assume "reach md q n"
    then obtain ks where "length ks \<le> m - depth q" "descend (emitted q) ks = Some n"
      by (auto simp: reach_def withinBound_def m)
    with m(2) show "emitted q = n" by simp
  next
    assume "emitted q = n"
    then have "withinBound md (depth q) (length ([]::jkey list)) \<and> descend (emitted q) [] = Some n"
      by (simp add: withinBound_def m)
    then show "reach md q n" unfolding reach_def by blast
  qed
qed

lemma withinBound_step:
  "\<not> depthReached md d \<Longrightarrow> withinBound md d (Suc l) \<longleftrightarrow> withinBound md (d + 1) l"
  by (auto simp: withinBound_def depthReached_def split: option.splits)

lemma reach_unfold:
  assumes dk: "distinctKeys (node q)" and nr: "\<not> depthReached md (depth q)"
  shows "reach md q n \<longleftrightarrow> emitted q = n \<or> (\<exists>c \<in> set (enqueueChildren q). reach md c n)"
proof
  assume "reach md q n"
  then obtain ks where ks: "withinBound md (depth q) (length ks)" "descend (emitted q) ks = Some n"
    by (auto simp: reach_def)
  show "emitted q = n \<or> (\<exists>c \<in> set (enqueueChildren q). reach md c n)"
  proof (cases ks)
    case Nil
    with ks(2) show ?thesis by simp
  next
    case (Cons k ks')
    with ks(2) obtain v where v: "childAt (node q) k = Some v"
      "descend (childNode (emitted q) k v) ks' = Some n"
      by (auto simp: emitted_def split: option.splits)
    from enqueueChildren_childAt [OF dk, of k v] v(1)
    obtain c where c: "c \<in> set (enqueueChildren q)" "emitted c = childNode (emitted q) k v"
      "depth c = depth q + 1" by blast
    from ks(1) Cons withinBound_step [OF nr, of "length ks'"]
    have "withinBound md (depth c) (length ks')" by (simp add: c(3))
    with v(2) c(2) have "reach md c n" unfolding reach_def by auto
    with c(1) show ?thesis by blast
  qed
next
  assume "emitted q = n \<or> (\<exists>c \<in> set (enqueueChildren q). reach md c n)"
  then show "reach md q n"
  proof
    assume "emitted q = n"
    then have "withinBound md (depth q) (length ([]::jkey list)) \<and> descend (emitted q) [] = Some n"
      using nr by (auto simp: withinBound_def depthReached_def split: option.splits)
    then show ?thesis unfolding reach_def by blast
  next
    assume "\<exists>c \<in> set (enqueueChildren q). reach md c n"
    then obtain c ks' where c: "c \<in> set (enqueueChildren q)"
      and ks': "withinBound md (depth c) (length ks')" "descend (emitted c) ks' = Some n"
      by (auto simp: reach_def)
    from enqueueChildren_shape [OF c] obtain k v where
      kv: "emitted c = childNode (emitted q) k v" "depth c = depth q + 1" by blast
    with c enqueueChildren_childAt [OF dk, of k v] have "childAt (node q) k = Some v" by blast
    with ks'(2) kv(1) have "descend (emitted q) (k # ks') = Some n" by (simp add: emitted_def)
    moreover from ks'(1) kv(2) withinBound_step [OF nr, of "length ks'"]
    have "withinBound md (depth q) (length (k # ks'))" by simp
    ultimately show ?thesis unfolding reach_def by blast
  qed
qed

lemma reach_child_path:
  assumes "c \<in> set (enqueueChildren q)" and "reach md c n"
  shows "key c = Some (path n ! length (path q))" and "emitted q \<noteq> n"
proof -
  from enqueueChildren_shape [OF assms(1)] obtain k v where
    kv: "emitted c = childNode (emitted q) k v" "key c = Some k" by blast
  from assms(2) obtain ks where "descend (emitted c) ks = Some n" by (auto simp: reach_def)
  from descend_path [OF this] kv(1) have p: "path n = path q @ k # ks"
    by (simp add: childNode_def emitted_def)
  then show "key c = Some (path n ! length (path q))" by (simp add: kv(2))
  from p show "emitted q \<noteq> n" by (auto simp: emitted_def)
qed

lemma children_indicator:
  assumes dk: "distinctKeys (node q)" and nr: "\<not> depthReached md (depth q)"
  shows "(if emitted q = n then 1 else 0) +
           sum_list (map (\<lambda>c. if reach md c n then 1 else 0) (enqueueChildren q))
         = (if reach md q n then 1 else (0::nat))"
proof -
  have "sum_list (map (\<lambda>c. if reach md c n then 1 else 0) (enqueueChildren q))
        = (if \<exists>c \<in> set (enqueueChildren q). reach md c n then 1 else (0::nat))"
    by (rule sum_indicator_unique [where g = key and a = "Some (path n ! length (path q))"])
       (use enqueueChildren_keys_distinct [OF dk] reach_child_path(1) in auto)
  moreover have "emitted q = n \<Longrightarrow> \<not> (\<exists>c \<in> set (enqueueChildren q). reach md c n)"
    using reach_child_path(2) by blast
  ultimately show ?thesis using reach_unfold [OF dk nr, of n] by auto
qed

text \<open>
  The invariant of the queue: what the loop still pushes, counted with multiplicity, is
  one occurrence of every node within reach of a queued node.
\<close>

lemma doubleStarLoop_count:
  "\<forall>q \<in> set queue. distinctKeys (node q) \<Longrightarrow>
   count (mset (doubleStarLoop md queue)) n
     = sum_list (map (\<lambda>q. if reach md q n then 1 else 0) queue)"
proof (induction md queue rule: doubleStarLoop.induct)
  case (1 md)
  then show ?case by (simp add: doubleStarLoop.simps)
next
  case (2 md q queue)
  from "2.prems" have dk: "distinctKeys (node q)" and dq: "\<forall>q \<in> set queue. distinctKeys (node q)"
    by simp_all
  show ?case
  proof (cases "depthReached md (depth q)")
    case True
    from "2.IH"(1) [OF True dq] reach_reached [OF True, of n] True
    show ?thesis by (simp add: doubleStarLoop.simps)
  next
    case False
    have "\<forall>c \<in> set (queue @ enqueueChildren q). distinctKeys (node c)"
      using dq enqueueChildren_distinctKeys [OF dk] by auto
    from "2.IH"(2) [OF False this]
    have ih: "count (mset (doubleStarLoop md (queue @ enqueueChildren q))) n
        = sum_list (map (\<lambda>q. if reach md q n then 1 else 0) queue)
          + sum_list (map (\<lambda>c. if reach md c n then 1 else 0) (enqueueChildren q))"
      by simp
    have "count (mset (doubleStarLoop md (q # queue))) n
        = (if emitted q = n then 1 else 0)
          + count (mset (doubleStarLoop md (queue @ enqueueChildren q))) n"
      using False by (simp add: doubleStarLoop.simps)
    also have "\<dots> = (if reach md q n then 1 else 0)
          + sum_list (map (\<lambda>q. if reach md q n then 1 else 0) queue)"
      unfolding ih using children_indicator [OF dk False, of n] by linarith
    finally show ?thesis by simp
  qed
qed

text \<open>
  C4. For a frontier member anchoring a \<open>DoubleStar\<close> step (a container: steps are
  applied to the members that are arrays or objects, the others are dropped), the step
  with bound \<open>N\<close> pushes every node \<open>descend tn ks\<close> with \<open>length ks \<le> N\<close> exactly once and
  nothing else: the member itself and each of its descendants down to relative depth
  \<open>N\<close>. Without a bound it pushes the member and all its descendants, each once.
\<close>

theorem doubleStar_emits_subtree:
  assumes "node tn \<noteq> JNull" and "typeofObject (node tn)" and "distinctKeys (node tn)"
  shows "\<exists>out. applyStep inh reg (DoubleStar maxDepth) tn = Inr out \<and>
           (\<forall>n. count (mset out) n =
              (if \<exists>ks. (case maxDepth of None \<Rightarrow> True | Some N \<Rightarrow> length ks \<le> N) \<and>
                        descend tn ks = Some n
               then 1 else 0))"
proof -
  let ?seed = "\<lparr>node = node tn, parent = parent tn, key = key tn, path = path tn, depth = 0\<rparr>"
  have e: "emitted ?seed = tn" by (simp add: emitted_def)
  have "\<forall>q \<in> set [?seed]. distinctKeys (node q)" using assms(3) by simp
  from doubleStarLoop_count [OF this, of maxDepth]
  have "\<And>n. count (mset (doubleStarLoop maxDepth [?seed])) n = (if reach maxDepth ?seed n then 1 else 0)"
    by simp
  moreover have "\<And>n. reach maxDepth ?seed n \<longleftrightarrow>
      (\<exists>ks. (case maxDepth of None \<Rightarrow> True | Some N \<Rightarrow> length ks \<le> N) \<and> descend tn ks = Some n)"
    unfolding reach_def e by (cases maxDepth) (simp_all add: withinBound_def)
  ultimately show ?thesis using assms(1,2) by simp
qed

theorem doubleStar_emits_subtree_witness:
  "node (rootNode (JObject [(''a'', JArray [JNum 1])])) \<noteq> JNull \<and>
   typeofObject (node (rootNode (JObject [(''a'', JArray [JNum 1])]))) \<and>
   distinctKeys (node (rootNode (JObject [(''a'', JArray [JNum 1])]))) \<and>
   applyStep nullPrototype [] (DoubleStar (Some 1)) (rootNode (JObject [(''a'', JArray [JNum 1])]))
     = Inr [rootNode (JObject [(''a'', JArray [JNum 1])]),
            \<lparr>node = JArray [JNum 1], parent = JObject [(''a'', JArray [JNum 1])],
              key = Some (KStr ''a''), path = [KStr ''a'']\<rparr>] \<and>
   (\<exists>out. applyStep nullPrototype [] (DoubleStar (Some 1)) (rootNode (JObject [(''a'', JArray [JNum 1])]))
             = Inr out \<and>
      (\<forall>n. count (mset out) n =
         (if \<exists>ks. length ks \<le> 1 \<and> descend (rootNode (JObject [(''a'', JArray [JNum 1])])) ks = Some n
          then 1 else 0)))"
proof -
  let ?tn = "rootNode (JObject [(''a'', JArray [JNum 1])])"
  have h1: "node ?tn \<noteq> JNull" and h2: "typeofObject (node ?tn)" and h3: "distinctKeys (node ?tn)"
    by (simp_all add: rootNode_def)
  have ev: "applyStep nullPrototype [] (DoubleStar (Some 1)) ?tn
     = Inr [?tn, \<lparr>node = JArray [JNum 1], parent = JObject [(''a'', JArray [JNum 1])],
                  key = Some (KStr ''a''), path = [KStr ''a'']\<rparr>]"
    by (simp add: rootNode_def doubleStarLoop.simps depthReached_def enqueueChildren_def emitted_def)
  from doubleStar_emits_subtree [OF h1 h2 h3, of nullPrototype "[]" "Some 1"]
  have "\<exists>out. applyStep nullPrototype [] (DoubleStar (Some 1)) ?tn = Inr out \<and>
      (\<forall>n. count (mset out) n =
         (if \<exists>ks. length ks \<le> 1 \<and> descend ?tn ks = Some n then 1 else 0))"
    by simp
  with h1 h2 h3 ev show ?thesis by blast
qed

text \<open>
  A frontier member that is \<open>null\<close> or not an object is dropped by every step, before
  the step is looked at.
\<close>

lemma applyStep_skips_non_container:
  "node tn = JNull \<or> \<not> typeofObject (node tn) \<Longrightarrow> applyStep inh reg step tn = Inr []"
  by simp

subsection \<open>Keys of array entries\<close>


lemma key_equalWith_number:
  assumes "find (\<lambda>c. name c = ''equalWith'') reg = Some equalWith"
  shows "evaluateCondition ''key.equalWith'' (JNum n) (KStr s) v reg = Inr False"
  using assms by (simp add: evaluateCondition_def startsWith_def endsWith_def equalWith_def)




lemma numericKeyTest_registered:
  "numericKeyTest gt lt bt reg spec arg \<Longrightarrow> lookedUpName spec \<in> set (map name reg)"
  using find_name_None [of "lookedUpName spec" reg]
  by (auto simp: numericKeyTest_def split: option.splits)







subsection \<open>Parents recorded by a traversal\<close>

lemma enqueueChildren_parent:
  "c \<in> set (enqueueChildren q) \<Longrightarrow> parentIsContainerOrNull (parent c)"
  by (cases "node q") (auto simp: enqueueChildren_def parentIsContainerOrNull_def)

lemma doubleStarLoop_parents:
  "\<forall>q \<in> set queue. parentIsContainerOrNull (parent q) \<Longrightarrow>
   \<forall>n \<in> set (doubleStarLoop md queue). parentIsContainerOrNull (parent n)"
proof (induction md queue rule: doubleStarLoop.induct)
  case (1 md)
  then show ?case by (simp add: doubleStarLoop.simps)
next
  case (2 md q queue)
  from "2.prems" have q: "parentIsContainerOrNull (parent (emitted q))"
    and rest: "\<forall>c \<in> set queue. parentIsContainerOrNull (parent c)"
    by (simp_all add: emitted_def)
  show ?case
  proof (cases "depthReached md (depth q)")
    case True
    from "2.IH"(1) [OF True rest] q True show ?thesis
      by (simp add: doubleStarLoop.simps)
  next
    case False
    have "\<forall>c \<in> set (queue @ enqueueChildren q). parentIsContainerOrNull (parent c)"
      using rest enqueueChildren_parent by auto
    from "2.IH"(2) [OF False this] q False show ?thesis
      by (simp add: doubleStarLoop.simps)
  qed
qed

lemma keyStep_parent: "n \<in> set (keyStep inh k tn) \<Longrightarrow> parent n = node tn"
  by (auto simp: keyStep_def childNode_def split: option.splits)

lemma condStep_parent: "condStep sat tn = Inr out \<Longrightarrow> n \<in> set out \<Longrightarrow> parent n = node tn"
  by (auto simp: condStep_def childNode_def split: sum.splits)

lemma applyStep_parents:
  assumes "applyStep inh reg s tn = Inr out" and "parentIsContainerOrNull (parent tn)"
    and "n \<in> set out"
  shows "parentIsContainerOrNull (parent n)"
proof (cases "node tn = JNull \<or> \<not> typeofObject (node tn)")
  case True
  with assms(1,3) show ?thesis by simp
next
  case False
  then have c: "parentIsContainerOrNull (node tn)"
    by (cases "node tn") (simp_all add: parentIsContainerOrNull_def)
  show ?thesis
  proof (cases s)
    case (Property nm)
    with assms(1) False have "out = keyStep inh nm tn" by simp
    with keyStep_parent assms(3) c show ?thesis by metis
  next
    case SingleStar
    with assms(1) False have "\<forall>m \<in> set out. parent m = node tn"
      by (cases "node tn") (auto simp: childNode_def)
    with assms(3) c show ?thesis by simp
  next
    case (DoubleStar md)
    let ?seed = "\<lparr>node = node tn, parent = parent tn, key = key tn, path = path tn, depth = 0\<rparr>"
    from DoubleStar assms(1) False have "out = doubleStarLoop md [?seed]" by simp
    moreover have "\<forall>q \<in> set [?seed]. parentIsContainerOrNull (parent q)" using assms(2) by simp
    ultimately show ?thesis using doubleStarLoop_parents assms(3) by blast
  next
    case (SingleKey k)
    with assms(1) False have "out = keyStep inh k tn" by simp
    with keyStep_parent assms(3) c show ?thesis by metis
  next
    case (MultiKey ks)
    with assms(1) False have "out = concat (map (\<lambda>k. keyStep inh k tn) ks)" by simp
    with assms(3) obtain k where "n \<in> set (keyStep inh k tn)" by auto
    with keyStep_parent c show ?thesis by metis
  next
    case (ObjectCond conds)
    with assms(1) False have "condStep (\<lambda>k v. objectCondSatisfies conds k v reg) tn = Inr out"
      by simp
    from condStep_parent [OF this assms(3)] c show ?thesis by simp
  next
    case (ArrayCond conds)
    with assms(1) False have "condStep (\<lambda>k v. arrayCondSatisfies conds k v reg) tn = Inr out"
      by simp
    from condStep_parent [OF this assms(3)] c show ?thesis by simp
  qed
qed

lemma nextNodes_parents:
  "nextNodes inh reg s cur = Inr nxt \<Longrightarrow> \<forall>tn \<in> set cur. parentIsContainerOrNull (parent tn) \<Longrightarrow>
   \<forall>n \<in> set nxt. parentIsContainerOrNull (parent n)"
proof (induction cur arbitrary: nxt)
  case Nil
  then show ?case by simp
next
  case (Cons tn cur)
  from Cons.prems(1) obtain out rest where o: "applyStep inh reg s tn = Inr out"
    "nextNodes inh reg s cur = Inr rest" "nxt = out @ rest"
    by (auto simp del: applyStep.simps split: sum.splits)
  from Cons.prems(2) have tn: "parentIsContainerOrNull (parent tn)"
    and cur: "\<forall>tn \<in> set cur. parentIsContainerOrNull (parent tn)" by simp_all
  from applyStep_parents [OF o(1) tn] Cons.IH [OF o(2) cur] o(3) show ?case by auto
qed

lemma runSteps_parents:
  "runSteps inh reg stps cur = Inr final \<Longrightarrow> \<forall>tn \<in> set cur. parentIsContainerOrNull (parent tn) \<Longrightarrow>
   \<forall>n \<in> set final. parentIsContainerOrNull (parent n)"
proof (induction stps arbitrary: cur)
  case Nil
  then show ?case by simp
next
  case (Cons s stps)
  from Cons.prems(1) obtain nxt where n: "nextNodes inh reg s cur = Inr nxt"
    "runSteps inh reg stps nxt = Inr final" by (auto split: sum.splits)
  from Cons.IH [OF n(2) nextNodes_parents [OF n(1) Cons.prems(2)]] show ?case .
qed

text \<open>
  Every node of a frontier reached from the root has \<open>null\<close>, an array or an object as
  its parent: the cases on which the mutators are specified.
\<close>

lemma frontier_parents:
  assumes "runSteps inh reg stps [rootNode data] = Inr final" and "tn \<in> set final"
  shows "parent tn = JNull \<or> (\<exists>xs. parent tn = JArray xs) \<or> (\<exists>es. parent tn = JObject es)"
proof -
  have "\<forall>n \<in> set final. parentIsContainerOrNull (parent n)"
    by (rule runSteps_parents [OF assms(1)]) (simp add: rootNode_def parentIsContainerOrNull_def)
  with assms(2) show ?thesis
    by (cases "parent tn") (auto simp: parentIsContainerOrNull_def)
qed

end
